theory Spec2Isabelle
  imports Complex_Main "HOL-Library.Word"
begin

section \<open>Types.h\<close>

text \<open>
  \<^verbatim>\<open>OrderId\<close>, \<^verbatim>\<open>Quantity\<close> and \<^verbatim>\<open>Timestamp\<close> are \<^verbatim>\<open>uint64_t\<close>: 64-bit words whose
  \<open>+\<close> and \<open>-\<close> wrap and whose \<open><\<close>, \<open>\<le>\<close> and \<open>min\<close> are the unsigned ones.
  \<^verbatim>\<open>Price\<close> is \<^verbatim>\<open>int64_t\<close>: a 64-bit word read in two's complement, compared with
  the signed orders \<open><s\<close> and \<open>\<le>s\<close>.
\<close>

type_synonym OrderId = "64 word"
type_synonym Price = "64 word"
type_synonym Quantity = "64 word"
type_synonym Timestamp = "64 word"

datatype Side = Buy | Sell

record Order =
  o_id :: OrderId
  o_side :: Side
  o_price :: Price
  o_quantity :: Quantity
  o_originalQty :: Quantity
  o_timestamp :: Timestamp

text \<open>The constructor \<^verbatim>\<open>Order(id, side, price, qty, ts)\<close>.\<close>

definition Order_new :: "OrderId \<Rightarrow> Side \<Rightarrow> Price \<Rightarrow> Quantity \<Rightarrow> Timestamp \<Rightarrow> Order" where
  "Order_new i s p q ts =
     \<lparr>o_id = i, o_side = s, o_price = p, o_quantity = q, o_originalQty = q, o_timestamp = ts\<rparr>"

record Trade =
  makerOrderId :: OrderId
  takerOrderId :: OrderId
  t_price :: Price
  t_quantity :: Quantity

definition Trade_new :: "OrderId \<Rightarrow> OrderId \<Rightarrow> Price \<Rightarrow> Quantity \<Rightarrow> Trade" where
  "Trade_new m t p q = \<lparr>makerOrderId = m, takerOrderId = t, t_price = p, t_quantity = q\<rparr>"

text \<open>
  Every \<^verbatim>\<open>Order\<close> object is owned by \<^verbatim>\<open>MatchingEngine::storage_\<close> and is never freed.
  The price levels and the index hold raw \<^verbatim>\<open>Order*\<close> pointers to the same objects, and
  the code writes \<^verbatim>\<open>quantity\<close> through them. The objects are therefore kept in one
  store, the list of the orders in allocation order, and an \<^verbatim>\<open>Order*\<close> is the position
  of its object in that list.
\<close>

type_synonym OrderPtr = nat
type_synonym Heap = "Order list"

definition set_quantity :: "Heap \<Rightarrow> OrderPtr \<Rightarrow> Quantity \<Rightarrow> Heap" where
  "set_quantity h p q = h[p := (h ! p)\<lparr>o_quantity := q\<rparr>]"

datatype error =
  OrderNotFound OrderId
  | ModifyOnlyReduce
  | FrontOfEmptyDeque

section \<open>PriceLevel.h\<close>

record PriceLevel =
  pl_price :: Price
  orders :: "OrderPtr list"
  totalQty :: Quantity

definition PriceLevel_new :: "Price \<Rightarrow> PriceLevel" where
  "PriceLevel_new p = \<lparr>pl_price = p, orders = [], totalQty = 0\<rparr>"

definition PriceLevel_addOrder :: "PriceLevel \<Rightarrow> Heap \<Rightarrow> OrderPtr \<Rightarrow> PriceLevel" where
  "PriceLevel_addOrder l h order =
     l\<lparr>orders := orders l @ [order], totalQty := totalQty l + o_quantity (h ! order)\<rparr>"

text \<open>
  The scan of \<^verbatim>\<open>removeOrder\<close>: the first order of the deque whose id is \<open>i\<close> is erased;
  the result is its quantity and the deque without it, or \<open>None\<close> when the scan reaches
  the end.
\<close>

fun removeOrder_scan :: "Heap \<Rightarrow> OrderId \<Rightarrow> OrderPtr list \<Rightarrow> (Quantity \<times> OrderPtr list) option" where
  "removeOrder_scan h i [] = None"
| "removeOrder_scan h i (p # ps) =
     (if o_id (h ! p) = i then Some (o_quantity (h ! p), ps)
      else (case removeOrder_scan h i ps of
              None \<Rightarrow> None
            | Some (q, ps') \<Rightarrow> Some (q, p # ps')))"

definition PriceLevel_removeOrder :: "PriceLevel \<Rightarrow> Heap \<Rightarrow> OrderId \<Rightarrow> bool \<times> PriceLevel" where
  "PriceLevel_removeOrder l h i =
     (case removeOrder_scan h i (orders l) of
        None \<Rightarrow> (False, l)
      | Some (q, ps) \<Rightarrow> (True, l\<lparr>orders := ps, totalQty := totalQty l - q\<rparr>))"

definition PriceLevel_getFront :: "PriceLevel \<Rightarrow> OrderPtr option" where
  "PriceLevel_getFront l = (case orders l of [] \<Rightarrow> None | p # _ \<Rightarrow> Some p)"

definition PriceLevel_popFront :: "PriceLevel \<Rightarrow> Heap \<Rightarrow> PriceLevel" where
  "PriceLevel_popFront l h =
     (case orders l of
        [] \<Rightarrow> l
      | p # ps \<Rightarrow> l\<lparr>orders := ps, totalQty := totalQty l - o_quantity (h ! p)\<rparr>)"

text \<open>
  \<^verbatim>\<open>reduceTop\<close> runs its body when \<^verbatim>\<open>orders_.empty()\<close> holds. There \<^verbatim>\<open>orders_.front()\<close>
  is the front of an empty deque, which has no value: the model returns the error
  \<open>FrontOfEmptyDeque\<close>. On a level with orders the body is skipped and nothing changes.
\<close>

definition PriceLevel_reduceTop :: "PriceLevel \<Rightarrow> Heap \<Rightarrow> Quantity \<Rightarrow> error + (PriceLevel \<times> Heap)" where
  "PriceLevel_reduceTop l h qty =
     (if orders l = [] then Inl FrontOfEmptyDeque else Inr (l, h))"

definition PriceLevel_adjustTotal :: "PriceLevel \<Rightarrow> Quantity \<Rightarrow> PriceLevel" where
  "PriceLevel_adjustTotal l delta = l\<lparr>totalQty := totalQty l - delta\<rparr>"

definition PriceLevel_empty :: "PriceLevel \<Rightarrow> bool" where
  "PriceLevel_empty l = (orders l = [])"

section \<open>OrderBook.h\<close>

text \<open>
  A \<^verbatim>\<open>std::map<Price, PriceLevel, Compare>\<close> is the list of its entries in iteration
  order. \<open>key_comp s\<close> is the comparator of the map that holds the orders of side \<open>s\<close>:
  \<^verbatim>\<open>std::greater<Price>\<close> for the bids, \<^verbatim>\<open>std::less<Price>\<close> for the asks.
\<close>

type_synonym LevelMap = "(Price \<times> PriceLevel) list"

fun key_comp :: "Side \<Rightarrow> Price \<Rightarrow> Price \<Rightarrow> bool" where
  "key_comp Buy a b = (b <s a)"
| "key_comp Sell a b = (a <s b)"

text \<open>\<^verbatim>\<open>emplace(k, v)\<close>: inserts at the place the comparator gives, unless the key is there.\<close>

fun map_emplace :: "Side \<Rightarrow> Price \<Rightarrow> PriceLevel \<Rightarrow> LevelMap \<Rightarrow> LevelMap" where
  "map_emplace s k v [] = [(k, v)]"
| "map_emplace s k v ((k', v') # m) =
     (if key_comp s k k' then (k, v) # (k', v') # m
      else if key_comp s k' k then (k', v') # map_emplace s k v m
      else (k', v') # m)"

text \<open>
  \<^verbatim>\<open>find(k)\<close> is \<open>map_of m k\<close>. \<open>map_store k v\<close> is a write through the iterator that
  \<^verbatim>\<open>find(k)\<close> returned, \<open>map_erase k\<close> is \<^verbatim>\<open>erase\<close> of that iterator.
\<close>

fun map_store :: "Price \<Rightarrow> PriceLevel \<Rightarrow> LevelMap \<Rightarrow> LevelMap" where
  "map_store k v [] = []"
| "map_store k v ((k', v') # m) =
     (if k' = k then (k', v) # m else (k', v') # map_store k v m)"

fun map_erase :: "Price \<Rightarrow> LevelMap \<Rightarrow> LevelMap" where
  "map_erase k [] = []"
| "map_erase k ((k', v') # m) = (if k' = k then m else (k', v') # map_erase k m)"

record OrderBook =
  bids :: LevelMap
  asks :: LevelMap
  index :: "OrderId \<rightharpoonup> OrderPtr"

definition OrderBook_new :: OrderBook where
  "OrderBook_new = \<lparr>bids = [], asks = [], index = Map.empty\<rparr>"

text \<open>
  The code branches on the side and then does the same to \<^verbatim>\<open>bids_\<close> or to \<^verbatim>\<open>asks_\<close>;
  \<open>levels s\<close> reads and \<open>set_levels s\<close> writes the map of side \<open>s\<close>.
\<close>

fun levels :: "Side \<Rightarrow> OrderBook \<Rightarrow> LevelMap" where
  "levels Buy b = bids b"
| "levels Sell b = asks b"

fun set_levels :: "Side \<Rightarrow> LevelMap \<Rightarrow> OrderBook \<Rightarrow> OrderBook" where
  "set_levels Buy m b = b\<lparr>bids := m\<rparr>"
| "set_levels Sell m b = b\<lparr>asks := m\<rparr>"

definition OrderBook_addOrder :: "OrderBook \<Rightarrow> Heap \<Rightarrow> OrderPtr \<Rightarrow> OrderBook" where
  "OrderBook_addOrder b h order =
     (let p = o_price (h ! order);
          s = o_side (h ! order);
          m = map_emplace s p (PriceLevel_new p) (levels s b);
          m' = (case map_of m p of
                  None \<Rightarrow> m
                | Some l \<Rightarrow> map_store p (PriceLevel_addOrder l h order) m)
      in (set_levels s m' b)\<lparr>index := (index b)(o_id (h ! order) \<mapsto> order)\<rparr>)"

definition OrderBook_cancelOrder :: "OrderBook \<Rightarrow> Heap \<Rightarrow> OrderId \<Rightarrow> bool \<times> OrderBook" where
  "OrderBook_cancelOrder b h i =
     (case index b i of
        None \<Rightarrow> (False, b)
      | Some order \<Rightarrow>
          let p = o_price (h ! order);
              s = o_side (h ! order);
              m = levels s b;
              m' = (case map_of m p of
                      None \<Rightarrow> m
                    | Some l \<Rightarrow>
                        let l' = snd (PriceLevel_removeOrder l h i)
                        in if PriceLevel_empty l' then map_erase p m else map_store p l' m)
          in (True, (set_levels s m' b)\<lparr>index := (index b)(i := None)\<rparr>))"

text \<open>\<^verbatim>\<open>modifyQuantity\<close> writes the order's quantity, so it returns the store too.\<close>

definition OrderBook_modifyQuantity ::
  "OrderBook \<Rightarrow> Heap \<Rightarrow> OrderId \<Rightarrow> Quantity \<Rightarrow> bool \<times> OrderBook \<times> Heap" where
  "OrderBook_modifyQuantity b h i newQty =
     (case index b i of
        None \<Rightarrow> (False, b, h)
      | Some order \<Rightarrow>
          if o_quantity (h ! order) \<le> newQty then (False, b, h)
          else
            let delta = o_quantity (h ! order) - newQty;
                h' = set_quantity h order newQty;
                p = o_price (h' ! order);
                s = o_side (h' ! order);
                m = levels s b;
                m' = (case map_of m p of
                        None \<Rightarrow> m
                      | Some l \<Rightarrow> map_store p (PriceLevel_adjustTotal l delta) m)
            in (True, set_levels s m' b, h'))"

definition OrderBook_cleanLevel :: "OrderBook \<Rightarrow> Side \<Rightarrow> Price \<Rightarrow> OrderBook" where
  "OrderBook_cleanLevel b s p =
     (case map_of (levels s b) p of
        None \<Rightarrow> b
      | Some l \<Rightarrow> if PriceLevel_empty l then set_levels s (map_erase p (levels s b)) b else b)"

definition OrderBook_removeFromIndex :: "OrderBook \<Rightarrow> OrderId \<Rightarrow> OrderBook" where
  "OrderBook_removeFromIndex b i = b\<lparr>index := (index b)(i := None)\<rparr>"

definition OrderBook_bestBid :: "OrderBook \<Rightarrow> Price option" where
  "OrderBook_bestBid b = (case bids b of [] \<Rightarrow> None | (p, _) # _ \<Rightarrow> Some p)"

definition OrderBook_bestAsk :: "OrderBook \<Rightarrow> Price option" where
  "OrderBook_bestAsk b = (case asks b of [] \<Rightarrow> None | (p, _) # _ \<Rightarrow> Some p)"

text \<open>
  \<^verbatim>\<open>spread\<close> returns \<^verbatim>\<open>std::optional<double>\<close>. A \<^verbatim>\<open>double\<close> is an IEEE-754 binary64
  number: a significand of 53 bits times a power of two. The values that occur here
  (an \<^verbatim>\<open>int64_t\<close>, and an \<^verbatim>\<open>int64_t\<close> divided by 100) lie in the range of the normal
  numbers, where the exponent is not bounded by the format, so the model keeps a
  \<^verbatim>\<open>double\<close> as the rational number it denotes. The conversion of an integer and the
  division both return the exact result rounded to the nearest \<^verbatim>\<open>double\<close>, a tie going
  to the even significand: that is \<open>round_double\<close>.

  \<open>bitlen n\<close> is the number of binary digits of \<open>n\<close>, \<open>ilog2 x\<close> the exponent \<open>e\<close> with
  \<open>2^e \<le> x < 2^(e+1)\<close> for a positive \<open>x\<close>, and \<open>2^(e-52)\<close> the distance between the
  numbers of 53 bits around \<open>x\<close>.
\<close>

function bitlen :: "int \<Rightarrow> int" where
  "bitlen n = (if n \<le> 0 then 0 else 1 + bitlen (n div 2))"
  by pat_completeness auto
termination
  by (relation "measure nat") auto

declare bitlen.simps [simp del]

definition ilog2 :: "rat \<Rightarrow> int" where
  "ilog2 x =
     (let d = bitlen (fst (quotient_of x)) - bitlen (snd (quotient_of x))
      in if 2 powi d \<le> x then d else d - 1)"

definition round_half_even :: "rat \<Rightarrow> int" where
  "round_half_even q =
     (let f = \<lfloor>q\<rfloor>; r = q - of_int f
      in if r < 1 / 2 then f else if 1 / 2 < r then f + 1 else if even f then f else f + 1)"

definition round_double :: "rat \<Rightarrow> rat" where
  "round_double x =
     (if x = 0 then 0
      else let u = 2 powi (ilog2 \<bar>x\<bar> - 52)
           in of_int (round_half_even (x / u)) * u)"

text \<open>
  \<^verbatim>\<open>spread\<close>: \<^verbatim>\<open>static_cast<double>(*ask - *bid) / 100.0\<close>. The difference is taken in
  \<^verbatim>\<open>int64_t\<close>: it is the word difference read in two's complement, which is the
  difference of the two prices when that fits 64 bits and wraps around otherwise, as
  the compiled code does. The difference is converted to \<^verbatim>\<open>double\<close> and the result
  divided by the \<^verbatim>\<open>double\<close> 100.
\<close>

definition OrderBook_spread :: "OrderBook \<Rightarrow> rat option" where
  "OrderBook_spread b =
     (case (OrderBook_bestBid b, OrderBook_bestAsk b) of
        (Some bid, Some ask) \<Rightarrow>
          Some (round_double (round_double (of_int (sint (ask - bid))) / 100))
      | _ \<Rightarrow> None)"

definition OrderBook_hasOrder :: "OrderBook \<Rightarrow> OrderId \<Rightarrow> bool" where
  "OrderBook_hasOrder b i = (index b i \<noteq> None)"

definition OrderBook_getOrder :: "OrderBook \<Rightarrow> OrderId \<Rightarrow> OrderPtr option" where
  "OrderBook_getOrder b i = index b i"

section \<open>MatchingEngine.h\<close>

record MatchingEngine =
  book :: OrderBook
  storage :: Heap
  nextOrderId :: OrderId

definition MatchingEngine_new :: MatchingEngine where
  "MatchingEngine_new = \<lparr>book = OrderBook_new, storage = [], nextOrderId = 1\<rparr>"

definition MatchingEngine_lastOrderId :: "MatchingEngine \<Rightarrow> OrderId" where
  "MatchingEngine_lastOrderId e = nextOrderId e - 1"

text \<open>
  \<^verbatim>\<open>fillLevel(taker, level, trades)\<close> reads and writes the two orders' quantities in the
  store, the level it was given by reference, the trade list it was given by reference,
  and the index of the book (\<^verbatim>\<open>removeFromIndex\<close>). These four are its state.
\<close>

record FillState =
  fs_heap :: Heap
  fs_index :: "OrderId \<rightharpoonup> OrderPtr"
  fs_level :: PriceLevel
  fs_trades :: "Trade list"

definition fillLevel_cond :: "OrderPtr \<Rightarrow> FillState \<Rightarrow> bool" where
  "fillLevel_cond taker s =
     (0 < o_quantity (fs_heap s ! taker) \<and> \<not> PriceLevel_empty (fs_level s))"

definition fillLevel_body :: "OrderPtr \<Rightarrow> FillState \<Rightarrow> FillState" where
  "fillLevel_body taker s =
     (case PriceLevel_getFront (fs_level s) of
        None \<Rightarrow> s
      | Some maker \<Rightarrow>
          let h = fs_heap s;
              fillQty = min (o_quantity (h ! taker)) (o_quantity (h ! maker));
              trades = fs_trades s @
                [Trade_new (o_id (h ! maker)) (o_id (h ! taker)) (o_price (h ! maker)) fillQty];
              h1 = set_quantity h taker (o_quantity (h ! taker) - fillQty);
              h2 = set_quantity h1 maker (o_quantity (h1 ! maker) - fillQty);
              l1 = PriceLevel_adjustTotal (fs_level s) fillQty
          in if o_quantity (h2 ! maker) = 0
             then \<lparr>fs_heap = h2, fs_index = (fs_index s)(o_id (h2 ! maker) := None),
                   fs_level = PriceLevel_popFront l1 h2, fs_trades = trades\<rparr>
             else \<lparr>fs_heap = h2, fs_index = fs_index s, fs_level = l1, fs_trades = trades\<rparr>)"

text \<open>
  The loop of \<^verbatim>\<open>fillLevel\<close>. It need not end on every state (a taker that is also the
  front of the level is never used up), so it is a partial function: \<open>None\<close> is a loop
  that does not return.
\<close>

partial_function (option) fillLevel :: "OrderPtr \<Rightarrow> FillState \<Rightarrow> FillState option" where
  "fillLevel taker s =
     (if fillLevel_cond taker s then fillLevel taker (fillLevel_body taker s) else Some s)"

declare fillLevel.simps [code]

text \<open>
  The two loops of \<^verbatim>\<open>match\<close> differ in the map they walk and in the test that leaves
  the loop. \<open>opp\<close> is the side whose map is walked (\<open>Sell\<close>, the asks, for a buy taker):
  a buy taker stops at \<^verbatim>\<open>it->first > taker->price\<close>, a sell taker at
  \<^verbatim>\<open>it->first < taker->price\<close>.
\<close>

fun past_limit :: "Side \<Rightarrow> Price \<Rightarrow> Price \<Rightarrow> bool" where
  "past_limit Sell level_price taker_price = (taker_price <s level_price)"
| "past_limit Buy level_price taker_price = (level_price <s taker_price)"

text \<open>
  One pass of the loop body after the \<^verbatim>\<open>break\<close> test: \<^verbatim>\<open>level\<close> is a reference to the
  first entry of the map, so what \<^verbatim>\<open>fillLevel\<close> left in it is stored back under its key
  before \<^verbatim>\<open>cleanLevel\<close> looks the key up.
\<close>

definition match_store :: "Side \<Rightarrow> Price \<Rightarrow> MatchingEngine \<Rightarrow> FillState \<Rightarrow> MatchingEngine" where
  "match_store opp key e s =
     (let b1 = (set_levels opp (map_store key (fs_level s) (levels opp (book e))) (book e))
                 \<lparr>index := fs_index s\<rparr>;
          b2 = (if PriceLevel_empty (fs_level s) then OrderBook_cleanLevel b1 opp key else b1)
      in e\<lparr>book := b2, storage := fs_heap s\<rparr>)"

partial_function (option) match_loop ::
  "Side \<Rightarrow> OrderPtr \<Rightarrow> MatchingEngine \<Rightarrow> Trade list \<Rightarrow> (MatchingEngine \<times> Trade list) option" where
  "match_loop opp taker e trades =
     (case levels opp (book e) of
        [] \<Rightarrow> Some (e, trades)
      | entry # _ \<Rightarrow>
          if \<not> 0 < o_quantity (storage e ! taker) then Some (e, trades)
          else if past_limit opp (fst entry) (o_price (storage e ! taker)) then Some (e, trades)
          else
            Option.bind
              (fillLevel taker
                 \<lparr>fs_heap = storage e, fs_index = index (book e),
                  fs_level = snd entry, fs_trades = trades\<rparr>)
              (\<lambda>s. match_loop opp taker (match_store opp (fst entry) e s) (fs_trades s)))"

declare match_loop.simps [code]

definition MatchingEngine_match ::
  "MatchingEngine \<Rightarrow> OrderPtr \<Rightarrow> (MatchingEngine \<times> Trade list) option" where
  "MatchingEngine_match e taker =
     (if o_side (storage e ! taker) = Buy then match_loop Sell taker e []
      else match_loop Buy taker e [])"

text \<open>
  \<^verbatim>\<open>submitOrder\<close>. The time stamp \<^verbatim>\<open>now()\<close> reads the clock; it is a parameter here.
  The result is the trade list and the engine after the call.
\<close>

definition MatchingEngine_submitOrder ::
  "MatchingEngine \<Rightarrow> Side \<Rightarrow> Price \<Rightarrow> Quantity \<Rightarrow> Timestamp \<Rightarrow> (Trade list \<times> MatchingEngine) option" where
  "MatchingEngine_submitOrder e side price qty ts =
     (let order = Order_new (nextOrderId e) side price qty ts;
          raw = length (storage e);
          e1 = e\<lparr>storage := storage e @ [order], nextOrderId := nextOrderId e + 1\<rparr>
      in Option.bind (MatchingEngine_match e1 raw)
           (\<lambda>(e2, trades).
              Some (trades,
                    if 0 < o_quantity (storage e2 ! raw)
                    then e2\<lparr>book := OrderBook_addOrder (book e2) (storage e2) raw\<rparr>
                    else e2)))"

definition MatchingEngine_cancelOrder :: "MatchingEngine \<Rightarrow> OrderId \<Rightarrow> bool \<times> MatchingEngine" where
  "MatchingEngine_cancelOrder e i =
     (let (r, b) = OrderBook_cancelOrder (book e) (storage e) i in (r, e\<lparr>book := b\<rparr>))"

text \<open>
  \<^verbatim>\<open>modifyOrder\<close> throws \<^verbatim>\<open>std::runtime_error\<close> with the message
  \<^verbatim>\<open>"Order not found: <id>"\<close> (the error \<open>OrderNotFound id\<close>) or
  \<^verbatim>\<open>"Modify can only redice qty at same price"\<close> (the error \<open>ModifyOnlyReduce\<close>). The
  result is the exception or the trade list, together with the engine after the call.
\<close>

definition MatchingEngine_modifyOrder ::
  "MatchingEngine \<Rightarrow> OrderId \<Rightarrow> Price \<Rightarrow> Quantity \<Rightarrow> Timestamp
     \<Rightarrow> ((error + Trade list) \<times> MatchingEngine) option" where
  "MatchingEngine_modifyOrder e i newPrice newQty ts =
     (case OrderBook_getOrder (book e) i of
        None \<Rightarrow> Some (Inl (OrderNotFound i), e)
      | Some order \<Rightarrow>
          if newPrice = o_price (storage e ! order) then
            if o_quantity (storage e ! order) \<le> newQty then Some (Inl ModifyOnlyReduce, e)
            else
              let (_, b, h) = OrderBook_modifyQuantity (book e) (storage e) i newQty
              in Some (Inr [], e\<lparr>book := b, storage := h\<rparr>)
          else
            let side = o_side (storage e ! order);
                e1 = snd (MatchingEngine_cancelOrder e i)
            in map_option (\<lambda>(trades, e2). (Inr trades, e2))
                 (MatchingEngine_submitOrder e1 side newPrice newQty ts))"

text \<open>
  The public operations, and a run of them from a state. An exception of
  \<^verbatim>\<open>modifyOrder\<close> leaves the engine as it is at the throw, and the caller goes on.
\<close>

datatype Op =
  Submit Side Price Quantity Timestamp
  | Cancel OrderId
  | Modify OrderId Price Quantity Timestamp

fun apply_op :: "MatchingEngine \<Rightarrow> Op \<Rightarrow> MatchingEngine option" where
  "apply_op e (Submit side price qty ts) =
     map_option snd (MatchingEngine_submitOrder e side price qty ts)"
| "apply_op e (Cancel i) = Some (snd (MatchingEngine_cancelOrder e i))"
| "apply_op e (Modify i price qty ts) =
     map_option snd (MatchingEngine_modifyOrder e i price qty ts)"

fun run :: "MatchingEngine \<Rightarrow> Op list \<Rightarrow> MatchingEngine option" where
  "run e [] = Some e"
| "run e (x # xs) = Option.bind (apply_op e x) (\<lambda>e'. run e' xs)"

section \<open>Invariants of the book\<close>

text \<open>The sum of the remaining quantities of the orders a level points to.\<close>

definition qsum :: "Heap \<Rightarrow> OrderPtr list \<Rightarrow> Quantity" where
  "qsum h ps = sum_list (map (\<lambda>p. o_quantity (h ! p)) ps)"

text \<open>
  A level under key \<open>k\<close> of the map of side \<open>s\<close>: it holds an order, its cached total
  is the sum of its orders' quantities, and its pointers are to objects of the store
  that have side \<open>s\<close> and price \<open>k\<close>.
\<close>

definition level_ok :: "Heap \<Rightarrow> Side \<Rightarrow> Price \<Rightarrow> PriceLevel \<Rightarrow> bool" where
  "level_ok h s k l =
     (orders l \<noteq> [] \<and> totalQty l = qsum h (orders l) \<and>
      (\<forall>p \<in> set (orders l). p < length h \<and> o_side (h ! p) = s \<and> o_price (h ! p) = k))"

definition ptrs_of :: "LevelMap \<Rightarrow> OrderPtr list" where
  "ptrs_of m = concat (map (\<lambda>x. orders (snd x)) m)"

text \<open>
  A map of side \<open>s\<close>: the keys are strictly ordered by the comparator, no order is held
  twice, and every level is well formed.
\<close>

definition side_ok :: "Heap \<Rightarrow> Side \<Rightarrow> LevelMap \<Rightarrow> bool" where
  "side_ok h s m =
     (sorted_wrt (key_comp s) (map fst m) \<and> distinct (ptrs_of m) \<and>
      (\<forall>x \<in> set m. level_ok h s (fst x) (snd x)))"

text \<open>
  The index: an entry under id \<open>i\<close> points to an object of the store with that id,
  which is held by the level of its side and price.
\<close>

definition index_ok :: "Heap \<Rightarrow> OrderBook \<Rightarrow> bool" where
  "index_ok h b =
     (\<forall>i p. index b i = Some p \<longrightarrow>
        p < length h \<and> o_id (h ! p) = i \<and>
        (\<exists>l. map_of (levels (o_side (h ! p)) b) (o_price (h ! p)) = Some l \<and>
             p \<in> set (orders l)))"

text \<open>Every bid price is below every ask price.\<close>

definition no_cross :: "OrderBook \<Rightarrow> bool" where
  "no_cross b = (\<forall>kb \<in> set (map fst (bids b)). \<forall>ka \<in> set (map fst (asks b)). kb <s ka)"

definition book_inv :: "Heap \<Rightarrow> OrderBook \<Rightarrow> bool" where
  "book_inv h b =
     (side_ok h Buy (bids b) \<and> side_ok h Sell (asks b) \<and> index_ok h b \<and> no_cross b)"

text \<open>
  The ids of the store: the object at position \<open>p\<close> has id \<open>p + 1\<close> (in \<^verbatim>\<open>uint64_t\<close>),
  and the counter is one more than the number of objects.
\<close>

definition ids_seq :: "MatchingEngine \<Rightarrow> bool" where
  "ids_seq e =
     (nextOrderId e = of_nat (Suc (length (storage e))) \<and>
      (\<forall>p < length (storage e). o_id (storage e ! p) = of_nat (Suc p)))"

definition engine_inv :: "MatchingEngine \<Rightarrow> bool" where
  "engine_inv e = (book_inv (storage e) (book e) \<and> ids_seq e)"

text \<open>
  Two stores with the same objects up to their remaining quantities: the code writes no
  other field of an order after its construction.
\<close>

definition same_static :: "Heap \<Rightarrow> Heap \<Rightarrow> bool" where
  "same_static h h' =
     (length h' = length h \<and>
      (\<forall>p < length h. o_id (h' ! p) = o_id (h ! p) \<and> o_side (h' ! p) = o_side (h ! p) \<and>
         o_price (h' ! p) = o_price (h ! p) \<and> o_originalQty (h' ! p) = o_originalQty (h ! p) \<and>
         o_timestamp (h' ! p) = o_timestamp (h ! p)))"

section \<open>The fills as the specification words them\<close>

text \<open>
  The specification's \<^verbatim>\<open>fill_level\<close>, on the makers in priority order and the taker's
  remaining quantity \<open>q\<close>: while \<open>q\<close> is positive and a maker is left, the fill is
  the minimum of \<open>q\<close> and the maker's remaining quantity, the trade carries the maker's
  id and price, and the taker's remaining quantity drops by the fill. \<open>spec_rem\<close> is
  the taker's remaining quantity at the end.
\<close>

fun spec_fills :: "OrderId \<Rightarrow> Quantity \<Rightarrow> Order list \<Rightarrow> Trade list" where
  "spec_fills tid q [] = []"
| "spec_fills tid q (m # ms) =
     (if q = 0 then []
      else Trade_new (o_id m) tid (o_price m) (min q (o_quantity m)) #
           spec_fills tid (q - min q (o_quantity m)) ms)"

fun spec_rem :: "Quantity \<Rightarrow> Order list \<Rightarrow> Quantity" where
  "spec_rem q [] = q"
| "spec_rem q (m # ms) = (if q = 0 then 0 else spec_rem (q - min q (o_quantity m)) ms)"

text \<open>The other side of the book, and the levels of a map that a taker's limit price reaches.\<close>

fun other_side :: "Side \<Rightarrow> Side" where
  "other_side Buy = Sell"
| "other_side Sell = Buy"

definition crossing :: "Side \<Rightarrow> Price \<Rightarrow> LevelMap \<Rightarrow> LevelMap" where
  "crossing opp price m = takeWhile (\<lambda>x. \<not> past_limit opp (fst x) price) m"

text \<open>
  The trade list of one submission against the book of \<open>e\<close>, trade by trade. The makers
  are the orders of the opposite side that the limit price reaches, best price first and
  oldest first within a price. The \<open>k\<close>-th trade is with the \<open>k\<close>-th maker, at that
  maker's price, and its quantity is the minimum of what the taker has left after the
  trades before it and of the maker's remaining quantity.
\<close>

definition fills_maker_priced ::
  "MatchingEngine \<Rightarrow> Side \<Rightarrow> Price \<Rightarrow> Quantity \<Rightarrow> Trade list \<Rightarrow> bool" where
  "fills_maker_priced e side price qty trades =
     (let makers = ptrs_of (crossing (other_side side) price (levels (other_side side) (book e)))
      in length trades \<le> length makers \<and>
         (\<forall>k < length trades.
            makerOrderId (trades ! k) = o_id (storage e ! (makers ! k)) \<and>
            takerOrderId (trades ! k) = nextOrderId e \<and>
            t_price (trades ! k) = o_price (storage e ! (makers ! k)) \<and>
            t_quantity (trades ! k) =
              min (qty - sum_list (map t_quantity (take k trades)))
                  (o_quantity (storage e ! (makers ! k)))))"

section \<open>Conditions of the loops\<close>

text \<open>
  What \<^verbatim>\<open>fillLevel\<close> has done when it returns \<open>s'\<close> from \<open>s\<close>, having popped the first
  \<open>n\<close> orders of the level.
\<close>

definition fill_post :: "OrderPtr \<Rightarrow> FillState \<Rightarrow> FillState \<Rightarrow> nat \<Rightarrow> bool" where
  "fill_post taker s s' n =
     (let h = fs_heap s; h' = fs_heap s'; ps = orders (fs_level s) in
      n \<le> length ps \<and>
      orders (fs_level s') = drop n ps \<and>
      pl_price (fs_level s') = pl_price (fs_level s) \<and>
      same_static h h' \<and>
      (\<forall>p. p \<noteq> taker \<longrightarrow> p \<notin> set ps \<longrightarrow> h' ! p = h ! p) \<and>
      totalQty (fs_level s') - qsum h' (drop n ps) = totalQty (fs_level s) - qsum h ps \<and>
      fs_index s' =
        (\<lambda>i. if i \<in> (\<lambda>p. o_id (h ! p)) ` set (take n ps) then None else fs_index s i) \<and>
      (o_quantity (h' ! taker) = 0 \<or> n = length ps) \<and>
      fs_trades s' = fs_trades s @
        spec_fills (o_id (h ! taker)) (o_quantity (h ! taker)) (map ((!) h) ps) \<and>
      o_quantity (h' ! taker) = spec_rem (o_quantity (h ! taker)) (map ((!) h) ps))"

text \<open>
  In \<^verbatim>\<open>match\<close> the taker is an object of the store that no level holds. When the loop
  is left, the taker is used up or no level of the walked map is within its limit.
\<close>

definition match_inv :: "OrderPtr \<Rightarrow> MatchingEngine \<Rightarrow> bool" where
  "match_inv taker e =
     (book_inv (storage e) (book e) \<and> taker < length (storage e) \<and>
      taker \<notin> set (ptrs_of (bids (book e))) \<and> taker \<notin> set (ptrs_of (asks (book e))))"

definition match_exit :: "Side \<Rightarrow> OrderPtr \<Rightarrow> MatchingEngine \<Rightarrow> bool" where
  "match_exit opp taker e =
     (o_quantity (storage e ! taker) = 0 \<or>
      (\<forall>k \<in> set (map fst (levels opp (book e))). past_limit opp k (o_price (storage e ! taker))))"

definition match_post ::
  "Side \<Rightarrow> OrderPtr \<Rightarrow> MatchingEngine \<Rightarrow> Trade list \<Rightarrow> MatchingEngine \<Rightarrow> Trade list \<Rightarrow> bool" where
  "match_post opp taker e trades e' trades' =
     (let h = storage e; t = h ! taker;
          makers = map ((!) h) (ptrs_of (crossing opp (o_price t) (levels opp (book e)))) in
      match_inv taker e' \<and> same_static h (storage e') \<and> nextOrderId e' = nextOrderId e \<and>
      match_exit opp taker e' \<and> index (book e') \<subseteq>\<^sub>m index (book e) \<and>
      (\<forall>s. set (ptrs_of (levels s (book e'))) \<subseteq> set (ptrs_of (levels s (book e)))) \<and>
      trades' = trades @ spec_fills (o_id t) (o_quantity t) makers \<and>
      o_quantity (storage e' ! taker) = spec_rem (o_quantity t) makers)"

text \<open>What \<^verbatim>\<open>submitOrder\<close> has done when it returns.\<close>

definition submit_post ::
  "MatchingEngine \<Rightarrow> Side \<Rightarrow> Price \<Rightarrow> Quantity \<Rightarrow> Timestamp \<Rightarrow> Trade list \<Rightarrow> MatchingEngine \<Rightarrow> bool" where
  "submit_post e side price qty ts trades e' =
     (let raw = length (storage e);
          makers = map ((!) (storage e))
            (ptrs_of (crossing (other_side side) price (levels (other_side side) (book e)))) in
      engine_inv e' \<and> nextOrderId e' = nextOrderId e + 1 \<and>
      same_static (storage e @ [Order_new (nextOrderId e) side price qty ts]) (storage e') \<and>
      trades = spec_fills (nextOrderId e) qty makers \<and>
      o_quantity (storage e' ! raw) = spec_rem qty makers \<and>
      (\<forall>i. i \<noteq> nextOrderId e \<longrightarrow> index (book e') i = None \<or> index (book e') i = index (book e) i) \<and>
      (\<forall>s. set (ptrs_of (levels s (book e'))) \<subseteq> insert raw (set (ptrs_of (levels s (book e))))) \<and>
      (0 < spec_rem qty makers \<longrightarrow>
         index (book e') (nextOrderId e) = Some raw \<and>
         (\<exists>l. map_of (levels side (book e')) price = Some l \<and> orders l \<noteq> [] \<and>
              last (orders l) = raw)))"

section \<open>Example states\<close>

text \<open>The engine after \<^verbatim>\<open>submitOrder(Side::Buy, 10000, 100)\<close> on a new engine.\<close>

definition engine_one_bid :: MatchingEngine where
  "engine_one_bid =
     \<lparr>book = \<lparr>bids = [(10000, \<lparr>pl_price = 10000, orders = [0], totalQty = 100\<rparr>)],
              asks = [], index = [1 \<mapsto> 0]\<rparr>,
      storage = [Order_new 1 Buy 10000 100 0], nextOrderId = 2\<rparr>"

text \<open>
  The engine after \<^verbatim>\<open>submitOrder(Side::Sell, 10100, 100)\<close> and
  \<^verbatim>\<open>submitOrder(Side::Buy, 9900, 100)\<close> on a new engine.
\<close>

definition engine_ask_bid :: MatchingEngine where
  "engine_ask_bid =
     \<lparr>book = \<lparr>bids = [(9900, \<lparr>pl_price = 9900, orders = [1], totalQty = 100\<rparr>)],
              asks = [(10100, \<lparr>pl_price = 10100, orders = [0], totalQty = 100\<rparr>)],
              index = [1 \<mapsto> 0, 2 \<mapsto> 1]\<rparr>,
      storage = [Order_new 1 Sell 10100 100 0, Order_new 2 Buy 9900 100 0], nextOrderId = 3\<rparr>"

text \<open>
  A state of \<^verbatim>\<open>fillLevel\<close>: a sell taker of 40 at 9900 (the object at position 1)
  before a level at 10000 that holds one buy order of 100.
\<close>

definition fill_state_example :: FillState where
  "fill_state_example =
     \<lparr>fs_heap = [Order_new 1 Buy 10000 100 0, Order_new 2 Sell 9900 40 0],
      fs_index = [1 \<mapsto> 0],
      fs_level = \<lparr>pl_price = 10000, orders = [0], totalQty = 100\<rparr>,
      fs_trades = []\<rparr>"

section \<open>Maps, stores and sums\<close>

lemma key_comp_trans: "key_comp s a b \<Longrightarrow> key_comp s b c \<Longrightarrow> key_comp s a c"
  by (cases s) auto

lemma key_comp_irrefl: "\<not> key_comp s a a"
  by (cases s) auto

lemma key_comp_total: "\<not> key_comp s a b \<Longrightarrow> \<not> key_comp s b a \<Longrightarrow> a = b"
  by (cases s) auto

lemma sorted_keys_distinct: "sorted_wrt (key_comp s) ks \<Longrightarrow> distinct ks"
  by (induction ks) (auto simp: key_comp_irrefl)

lemma map_of_split:
  "map_of m k = Some l \<Longrightarrow>
   \<exists>m1 m2. m = m1 @ (k, l) # m2 \<and> k \<notin> set (map fst m1) \<and>
     (\<forall>v. map_store k v m = m1 @ (k, v) # m2) \<and> map_erase k m = m1 @ m2"
proof (induction m)
  case Nil
  then show ?case by simp
next
  case (Cons x m)
  obtain k' l' where x: "x = (k', l')" by (cases x)
  show ?case
  proof (cases "k' = k")
    case True
    with Cons.prems x have "l' = l" by simp
    with True x show ?thesis by (intro exI [of _ "[]"] exI [of _ m]) simp
  next
    case False
    with Cons.prems x have "map_of m k = Some l" by simp
    from Cons.IH [OF this] obtain m1 m2 where
      m: "m = m1 @ (k, l) # m2" "k \<notin> set (map fst m1)"
        "\<forall>v. map_store k v m = m1 @ (k, v) # m2" "map_erase k m = m1 @ m2"
      by blast
    with False x show ?thesis
      by (intro exI [of _ "x # m1"] exI [of _ m2]) simp
  qed
qed

lemma ptrs_of_append: "ptrs_of (m1 @ m2) = ptrs_of m1 @ ptrs_of m2"
  by (simp add: ptrs_of_def)

lemma ptrs_of_Cons: "ptrs_of (x # m) = orders (snd x) @ ptrs_of m"
  by (simp add: ptrs_of_def)

lemma ptrs_of_Nil: "ptrs_of [] = []"
  by (simp add: ptrs_of_def)

lemma map_emplace_keys:
  "set (map fst (map_emplace s k v m)) = insert k (set (map fst m))"
proof (induction m)
  case Nil
  then show ?case by simp
next
  case (Cons x m)
  obtain k' l' where x: "x = (k', l')" by (cases x)
  consider "key_comp s k k'" | "\<not> key_comp s k k'" "key_comp s k' k"
    | "\<not> key_comp s k k'" "\<not> key_comp s k' k" by blast
  then show ?case
  proof cases
    case 1
    with x show ?thesis by simp
  next
    case 2
    with x Cons.IH show ?thesis by auto
  next
    case 3
    then have "k = k'" by (rule key_comp_total)
    with 3 x show ?thesis by auto
  qed
qed

lemma map_emplace_sorted:
  "sorted_wrt (key_comp s) (map fst m) \<Longrightarrow> sorted_wrt (key_comp s) (map fst (map_emplace s k v m))"
proof (induction m)
  case Nil
  then show ?case by simp
next
  case (Cons x m)
  obtain k' l' where x: "x = (k', l')" by (cases x)
  from Cons.prems x have rest: "sorted_wrt (key_comp s) (map fst m)"
    and hd: "\<forall>y \<in> set (map fst m). key_comp s k' y" by auto
  show ?case
  proof (cases "key_comp s k k'")
    case True
    with hd have "\<forall>y \<in> set (map fst m). key_comp s k y" by (blast intro: key_comp_trans)
    with True x Cons.prems show ?thesis by auto
  next
    case False
    show ?thesis
    proof (cases "key_comp s k' k")
      case True
      from Cons.IH [OF rest] True hd False x show ?thesis
        by (auto simp: map_emplace_keys simp del: set_map)
    next
      case F2: False
      with False x Cons.prems show ?thesis by simp
    qed
  qed
qed

lemma map_emplace_present:
  "sorted_wrt (key_comp s) (map fst m) \<Longrightarrow> map_of m k = Some l \<Longrightarrow> map_emplace s k v m = m"
proof (induction m)
  case Nil
  then show ?case by simp
next
  case (Cons x m)
  obtain k' l' where x: "x = (k', l')" by (cases x)
  show ?case
  proof (cases "k' = k")
    case True
    with x show ?thesis by (simp add: key_comp_irrefl)
  next
    case False
    with Cons.prems x have mk: "map_of m k = Some l" by simp
    then have "k \<in> set (map fst m)" by (metis map_of_eq_None_iff option.distinct(1) set_map)
    with Cons.prems x have "key_comp s k' k" by auto
    then have "\<not> key_comp s k k'" using key_comp_trans key_comp_irrefl by blast
    with \<open>key_comp s k' k\<close> Cons.IH [OF _ mk] Cons.prems x show ?thesis by simp
  qed
qed

lemma map_emplace_absent:
  "map_of m k = None \<Longrightarrow>
   \<exists>m1 m2. m = m1 @ m2 \<and> map_emplace s k v m = m1 @ (k, v) # m2"
proof (induction m)
  case Nil
  then show ?case by simp
next
  case (Cons x m)
  obtain k' l' where x: "x = (k', l')" by (cases x)
  with Cons.prems have ne: "k' \<noteq> k" and mk: "map_of m k = None" by (auto split: if_splits)
  show ?case
  proof (cases "key_comp s k k'")
    case True
    with x show ?thesis by (intro exI [of _ "[]"] exI [of _ "x # m"]) simp
  next
    case False
    with ne have kk: "key_comp s k' k" using key_comp_total by blast
    from Cons.IH [OF mk] obtain m1 m2 where "m = m1 @ m2" "map_emplace s k v m = m1 @ (k, v) # m2"
      by blast
    with False kk x show ?thesis by (intro exI [of _ "x # m1"] exI [of _ m2]) simp
  qed
qed

lemma set_quantity_length [simp]: "length (set_quantity h p q) = length h"
  by (simp add: set_quantity_def)

lemma set_quantity_nth:
  "set_quantity h p q ! p' =
     (if p' = p \<and> p < length h then (h ! p)\<lparr>o_quantity := q\<rparr> else h ! p')"
  by (cases "p' = p") (auto simp: set_quantity_def list_update_beyond)

lemma set_quantity_other [simp]: "p' \<noteq> p \<Longrightarrow> set_quantity h p q ! p' = h ! p'"
  by (simp add: set_quantity_def)

lemma same_static_refl [simp]: "same_static h h"
  by (simp add: same_static_def)

lemma same_static_trans: "same_static h h1 \<Longrightarrow> same_static h1 h2 \<Longrightarrow> same_static h h2"
  by (simp add: same_static_def)

lemma same_static_set_quantity [simp]: "same_static h (set_quantity h p q)"
  by (simp add: same_static_def set_quantity_nth)

lemma qsum_Nil [simp]: "qsum h [] = 0"
  by (simp add: qsum_def)

lemma qsum_Cons [simp]: "qsum h (p # ps) = o_quantity (h ! p) + qsum h ps"
  by (simp add: qsum_def)

lemma qsum_append [simp]: "qsum h (ps @ qs) = qsum h ps + qsum h qs"
  by (simp add: qsum_def)

lemma qsum_frame:
  "(\<And>p. p \<in> set ps \<Longrightarrow> o_quantity (h' ! p) = o_quantity (h ! p)) \<Longrightarrow> qsum h' ps = qsum h ps"
  by (induction ps) auto

lemma qsum_set_quantity_notin [simp]: "p \<notin> set ps \<Longrightarrow> qsum (set_quantity h p q) ps = qsum h ps"
  by (rule qsum_frame) (auto simp: set_quantity_nth)

lemma qsum_set_quantity_in:
  "distinct ps \<Longrightarrow> p \<in> set ps \<Longrightarrow> p < length h \<Longrightarrow>
   qsum (set_quantity h p q) ps = qsum h ps - o_quantity (h ! p) + q"
  by (induction ps) (auto simp: set_quantity_nth)

section \<open>Rounding to double\<close>

lemma bitlen_nonneg: "0 \<le> bitlen n"
  by (induction n rule: bitlen.induct) (simp add: bitlen.simps)

lemma bitlen_bounds: "0 < n \<Longrightarrow> 2 ^ nat (bitlen n - 1) \<le> n \<and> n < 2 ^ nat (bitlen n)"
proof (induction n rule: bitlen.induct)
  case (1 n)
  show ?case
  proof (cases "n = 1")
    case True
    then show ?thesis by (simp add: bitlen.simps)
  next
    case False
    with 1 have h: "0 < n div 2" by simp
    from 1(1) h 1(2) have ih: "2 ^ nat (bitlen (n div 2) - 1) \<le> n div 2"
      "n div 2 < 2 ^ nat (bitlen (n div 2))" by simp_all
    have bl: "bitlen n = 1 + bitlen (n div 2)" using 1(2) by (subst bitlen.simps) simp
    have pos: "1 \<le> bitlen (n div 2)" using h bitlen_nonneg [of "n div 2 div 2"]
      by (subst bitlen.simps) simp
    have "nat (bitlen n - 1) = Suc (nat (bitlen (n div 2) - 1))" using pos bl by simp
    moreover have "nat (bitlen n) = Suc (nat (bitlen (n div 2)))" using pos bl by simp
    moreover have "2 * (n div 2) \<le> n" "n < 2 * (n div 2) + 2" by arith+
    ultimately show ?thesis using ih by auto
  qed
qed

lemma bitlen_powi:
  assumes "0 < n"
  shows "(2::rat) powi (bitlen n - 1) \<le> of_int n" "(of_int n :: rat) < 2 powi (bitlen n)"
proof -
  from bitlen_bounds [OF assms] have b: "2 ^ nat (bitlen n - 1) \<le> n" "n < 2 ^ nat (bitlen n)"
    by simp_all
  have pos: "1 \<le> bitlen n" using assms bitlen_nonneg [of "n div 2"] by (subst bitlen.simps) simp
  have "(of_int (2 ^ nat (bitlen n - 1)) :: rat) \<le> of_int n" using b(1) by (simp only: of_int_le_iff)
  then show "(2::rat) powi (bitlen n - 1) \<le> of_int n" using pos by (simp add: power_int_def)
  have "(of_int n :: rat) < of_int (2 ^ nat (bitlen n))" using b(2) by (simp only: of_int_less_iff)
  then show "(of_int n :: rat) < 2 powi (bitlen n)" using pos by (simp add: power_int_def)
qed

lemma ilog2_bounds:
  assumes "0 < x"
  shows "2 powi (ilog2 x) \<le> x \<and> x < 2 powi (ilog2 x + 1)"
proof -
  obtain a b where q: "quotient_of x = (a, b)" by (cases "quotient_of x")
  have bp: "0 < b" using quotient_of_denom_pos [OF q] .
  have xe: "x = of_int a / of_int b" using quotient_of_div [OF q] .
  have ap: "0 < a" using assms bp xe by (simp add: zero_less_divide_iff)
  define d where "d = bitlen a - bitlen b"
  note A = bitlen_powi [OF ap]
  note B = bitlen_powi [OF bp]
  have bq: "(0::rat) < of_int b" using bp by simp
  have aq: "(0::rat) < of_int a" using ap by simp
  have up: "x < 2 powi (d + 1)"
  proof -
    have "x < 2 powi (bitlen a) / 2 powi (bitlen b - 1)"
      unfolding xe using A(2) B(1) aq bq
      by (intro frac_less) (auto simp: less_imp_le)
    also have "\<dots> = 2 powi (d + 1)"
      unfolding d_def by (simp add: power_int_diff [symmetric] algebra_simps)
    finally show ?thesis .
  qed
  have lo: "2 powi (d - 1) < x"
  proof -
    have "2 powi (d - 1) = (2::rat) powi (bitlen a - 1) / 2 powi (bitlen b)"
      unfolding d_def by (simp add: power_int_diff [symmetric] algebra_simps)
    also have "\<dots> < x"
      unfolding xe using A(1) B(2) aq bq
      by (intro frac_less2) (auto simp: less_imp_le)
    finally show ?thesis .
  qed
  show ?thesis
  proof (cases "2 powi d \<le> x")
    case True
    then have "ilog2 x = d" by (simp add: ilog2_def q d_def Let_def)
    with True up show ?thesis by simp
  next
    case False
    then have "ilog2 x = d - 1" by (simp add: ilog2_def q d_def Let_def)
    with False lo show ?thesis by simp
  qed
qed

lemma round_half_even_near: "\<bar>of_int (round_half_even q) - q\<bar> \<le> 1 / 2"
  unfolding round_half_even_def Let_def
  by (auto simp: abs_if) linarith+

lemma round_half_even_int [simp]: "round_half_even (of_int z) = z"
  by (simp add: round_half_even_def Let_def)

lemma round_double_near:
  assumes "x \<noteq> 0"
  shows "\<bar>round_double x - x\<bar> \<le> 2 powi (ilog2 \<bar>x\<bar> - 53)"
proof -
  define u :: rat where "u = 2 powi (ilog2 \<bar>x\<bar> - 52)"
  have up: "0 < u" unfolding u_def by simp
  have "round_double x - x = (of_int (round_half_even (x / u)) - x / u) * u"
    using assms up by (simp add: round_double_def u_def [symmetric] Let_def algebra_simps)
  then have "\<bar>round_double x - x\<bar> = \<bar>of_int (round_half_even (x / u)) - x / u\<bar> * u"
    using up by (simp add: abs_mult)
  also have "\<dots> \<le> (1 / 2) * u"
    using round_half_even_near [of "x / u"] up by (intro mult_right_mono) auto
  also have "\<dots> = 2 powi (ilog2 \<bar>x\<bar> - 53)"
    unfolding u_def by (simp add: power_int_diff)
  finally show ?thesis .
qed

lemma round_double_rel:
  "\<bar>round_double x - x\<bar> \<le> \<bar>x\<bar> / 2 ^ 53"
proof (cases "x = 0")
  case True
  then show ?thesis by (simp add: round_double_def)
next
  case False
  then have p: "0 < \<bar>x\<bar>" by simp
  have "\<bar>round_double x - x\<bar> \<le> 2 powi (ilog2 \<bar>x\<bar> - 53)" using round_double_near [OF False] .
  also have "\<dots> = 2 powi (ilog2 \<bar>x\<bar>) / 2 ^ 53" by (simp add: power_int_diff)
  also have "\<dots> \<le> \<bar>x\<bar> / 2 ^ 53" using ilog2_bounds [OF p] by (simp add: divide_right_mono)
  finally show ?thesis .
qed

lemma round_double_of_int:
  assumes "\<bar>m\<bar> < 2 ^ 53"
  shows "round_double (of_int m) = of_int m"
proof (cases "m = 0")
  case True
  then show ?thesis by (simp add: round_double_def)
next
  case False
  define x :: rat where "x = of_int m"
  have p: "0 < \<bar>x\<bar>" using False by (simp add: x_def)
  have "2 powi (ilog2 \<bar>x\<bar>) \<le> \<bar>x\<bar>" using ilog2_bounds [OF p] by simp
  also have "\<bar>x\<bar> < 2 powi 53"
  proof -
    have "(of_int \<bar>m\<bar> :: rat) < of_int (2 ^ 53)" using assms by (simp only: of_int_less_iff)
    then show ?thesis by (simp add: x_def)
  qed
  finally have "(2::rat) powi (ilog2 \<bar>x\<bar>) < 2 powi 53" .
  then have lt: "ilog2 \<bar>x\<bar> < 53" by (rule power_int_le_imp_less_exp [rotated]) simp_all
  define j where "j = nat (52 - ilog2 \<bar>x\<bar>)"
  have j: "ilog2 \<bar>x\<bar> - 52 = - int j" using lt by (simp add: j_def)
  have u: "(2::rat) powi (ilog2 \<bar>x\<bar> - 52) = 1 / 2 ^ j"
    unfolding j by (simp add: power_int_minus field_simps)
  have xn: "x \<noteq> 0" using False by (simp add: x_def)
  have q: "x / (1 / 2 ^ j) = of_int (m * 2 ^ j)" by (simp add: x_def)
  have "round_double x = of_int (round_half_even (x / (1 / 2 ^ j))) * (1 / 2 ^ j)"
    using xn by (simp add: round_double_def Let_def u)
  also have "\<dots> = of_int (m * 2 ^ j) * (1 / 2 ^ j)"
    by (simp only: q round_half_even_int)
  also have "\<dots> = x" by (simp add: x_def)
  finally show ?thesis by (simp add: x_def)
qed

lemma round_double_quotient:
  "\<bar>round_double (round_double x / 100) - x / 100\<bar> \<le> \<bar>x / 100\<bar> / 2 ^ 51"
proof -
  define a where "a = \<bar>x\<bar> / 100"
  define y where "y = round_double x / 100"
  have a0: "0 \<le> a" by (simp add: a_def)
  have "\<bar>y - x / 100\<bar> = \<bar>round_double x - x\<bar> / 100"
    by (simp add: y_def diff_divide_distrib [symmetric])
  also have "\<dots> \<le> (\<bar>x\<bar> / 2 ^ 53) / 100"
    using round_double_rel [of x] by (intro divide_right_mono) simp_all
  finally have 1: "\<bar>y - x / 100\<bar> \<le> a / 2 ^ 53" by (simp add: a_def)
  have "\<bar>y\<bar> \<le> \<bar>x / 100\<bar> + \<bar>y - x / 100\<bar>" by simp
  with 1 have 2: "\<bar>y\<bar> \<le> a + a / 2 ^ 53" by (simp add: a_def)
  have "\<bar>round_double y - y\<bar> \<le> \<bar>y\<bar> / 2 ^ 53" by (rule round_double_rel)
  also have "\<dots> \<le> (a + a / 2 ^ 53) / 2 ^ 53" using 2 by (intro divide_right_mono) simp_all
  finally have 3: "\<bar>round_double y - y\<bar> \<le> (a + a / 2 ^ 53) / 2 ^ 53" .
  have "\<bar>round_double y - x / 100\<bar> \<le> \<bar>round_double y - y\<bar> + \<bar>y - x / 100\<bar>" by simp
  with 1 3 have "\<bar>round_double y - x / 100\<bar> \<le> (a + a / 2 ^ 53) / 2 ^ 53 + a / 2 ^ 53"
    by linarith
  also have "\<dots> \<le> a / 2 ^ 51" using a0 by (simp add: field_simps)
  finally show ?thesis by (simp add: y_def a_def)
qed

lemma sint_diff_in_range:
  fixes a b :: "64 word"
  assumes "- (2 ^ 63) \<le> sint a - sint b" "sint a - sint b < 2 ^ 63"
  shows "sint (a - b) = sint a - sint b"
  using assms by (simp add: sint_word_ariths signed_take_bit_int_eq_self)

section \<open>The loop of fillLevel\<close>

lemma fillLevel_stop:
  "\<not> fillLevel_cond taker s \<Longrightarrow> fillLevel taker s = Some s"
  by (subst fillLevel.simps) simp

lemma fillLevel_step:
  "fillLevel_cond taker s \<Longrightarrow> fillLevel taker s = fillLevel taker (fillLevel_body taker s)"
  by (subst fillLevel.simps) simp

lemma fill_post_stop:
  assumes "\<not> fillLevel_cond taker s"
  shows "fill_post taker s s 0"
proof -
  have "spec_fills tid (o_quantity (fs_heap s ! taker)) (map ((!) (fs_heap s)) (orders (fs_level s))) = []" for tid
    using assms by (cases "orders (fs_level s)") (auto simp: fillLevel_cond_def PriceLevel_empty_def word_gt_0)
  moreover have "spec_rem (o_quantity (fs_heap s ! taker)) (map ((!) (fs_heap s)) (orders (fs_level s)))
      = o_quantity (fs_heap s ! taker)"
    using assms by (cases "orders (fs_level s)") (auto simp: fillLevel_cond_def PriceLevel_empty_def word_gt_0)
  moreover have "o_quantity (fs_heap s ! taker) = 0 \<or> orders (fs_level s) = []"
    using assms by (auto simp: fillLevel_cond_def PriceLevel_empty_def word_gt_0)
  ultimately show ?thesis
    by (auto simp: fill_post_def Let_def)
qed

lemma fillLevel_body_pop:
  assumes ps: "orders (fs_level s) = m # ms"
    and v: "taker < length (fs_heap s)" "m < length (fs_heap s)" "taker \<noteq> m"
    and le: "o_quantity (fs_heap s ! m) \<le> o_quantity (fs_heap s ! taker)"
  shows "fillLevel_body taker s =
     \<lparr>fs_heap = set_quantity (set_quantity (fs_heap s) taker
                   (o_quantity (fs_heap s ! taker) - o_quantity (fs_heap s ! m))) m 0,
      fs_index = (fs_index s)(o_id (fs_heap s ! m) := None),
      fs_level = (fs_level s)\<lparr>orders := ms,
                   totalQty := totalQty (fs_level s) - o_quantity (fs_heap s ! m)\<rparr>,
      fs_trades = fs_trades s @
        [Trade_new (o_id (fs_heap s ! m)) (o_id (fs_heap s ! taker)) (o_price (fs_heap s ! m))
           (o_quantity (fs_heap s ! m))]\<rparr>"
proof -
  have mn: "min (o_quantity (fs_heap s ! taker)) (o_quantity (fs_heap s ! m)) = o_quantity (fs_heap s ! m)"
    using le by (rule min_absorb2)
  show ?thesis
    using ps v
    by (simp add: fillLevel_body_def PriceLevel_getFront_def Let_def mn set_quantity_nth
        PriceLevel_adjustTotal_def PriceLevel_popFront_def)
qed

lemma fillLevel_body_stay:
  assumes ps: "orders (fs_level s) = m # ms"
    and v: "taker < length (fs_heap s)" "m < length (fs_heap s)" "taker \<noteq> m"
    and lt: "o_quantity (fs_heap s ! taker) < o_quantity (fs_heap s ! m)"
  shows "fillLevel_body taker s =
     \<lparr>fs_heap = set_quantity (set_quantity (fs_heap s) taker 0) m
                   (o_quantity (fs_heap s ! m) - o_quantity (fs_heap s ! taker)),
      fs_index = fs_index s,
      fs_level = (fs_level s)\<lparr>totalQty := totalQty (fs_level s) - o_quantity (fs_heap s ! taker)\<rparr>,
      fs_trades = fs_trades s @
        [Trade_new (o_id (fs_heap s ! m)) (o_id (fs_heap s ! taker)) (o_price (fs_heap s ! m))
           (o_quantity (fs_heap s ! taker))]\<rparr>"
proof -
  have mn: "min (o_quantity (fs_heap s ! taker)) (o_quantity (fs_heap s ! m)) = o_quantity (fs_heap s ! taker)"
    using lt by (intro min_absorb1 less_imp_le)
  have ne: "o_quantity (fs_heap s ! m) - o_quantity (fs_heap s ! taker) \<noteq> 0"
    using lt by auto
  show ?thesis
    using ps v ne
    by (simp add: fillLevel_body_def PriceLevel_getFront_def Let_def mn set_quantity_nth
        PriceLevel_adjustTotal_def)
qed

lemma spec_fills_zero [simp]: "spec_fills tid 0 ms = []"
  by (cases ms) auto

lemma spec_rem_zero [simp]: "spec_rem 0 ms = 0"
  by (cases ms) auto

lemma fill_post_stay:
  assumes ps: "orders (fs_level s) = m # ms"
    and v: "taker < length (fs_heap s)" "m < length (fs_heap s)" "taker \<noteq> m"
    and d: "m \<notin> set ms" "taker \<notin> set ms"
    and pos: "0 < o_quantity (fs_heap s ! taker)"
    and lt: "o_quantity (fs_heap s ! taker) < o_quantity (fs_heap s ! m)"
  shows "fill_post taker s (fillLevel_body taker s) 0"
proof -
  note b = fillLevel_body_stay [OF ps v lt]
  have mn: "min (o_quantity (fs_heap s ! taker)) (o_quantity (fs_heap s ! m)) = o_quantity (fs_heap s ! taker)"
    using lt by (intro min_absorb1 less_imp_le)
  from pos have q0: "o_quantity (fs_heap s ! taker) \<noteq> 0" by auto
  show ?thesis
    unfolding fill_post_def Let_def b
    using ps v d q0 
    by (simp add: set_quantity_nth mn same_static_trans [OF same_static_set_quantity same_static_set_quantity])
qed

lemma fill_post_pop:
  assumes ps: "orders (fs_level s) = m # ms"
    and v: "taker < length (fs_heap s)" "m < length (fs_heap s)" "taker \<noteq> m"
    and d: "m \<notin> set ms" "taker \<notin> set ms" "\<forall>p \<in> set ms. p < length (fs_heap s)"
    and pos: "0 < o_quantity (fs_heap s ! taker)"
    and le: "o_quantity (fs_heap s ! m) \<le> o_quantity (fs_heap s ! taker)"
    and post: "fill_post taker (fillLevel_body taker s) s' n"
  shows "fill_post taker s s' (Suc n)"
proof -
  let ?h = "fs_heap s"
  let ?s1 = "fillLevel_body taker s"
  let ?h1 = "fs_heap ?s1"
  let ?q = "o_quantity (?h ! taker)"
  let ?qm = "o_quantity (?h ! m)"
  note b = fillLevel_body_pop [OF ps v le]
  have h1: "?h1 = set_quantity (set_quantity ?h taker (?q - ?qm)) m 0" by (simp add: b)
  have st1: "same_static ?h ?h1"
    unfolding h1 by (rule same_static_trans [OF same_static_set_quantity same_static_set_quantity])
  have fr1: "p \<noteq> taker \<Longrightarrow> p \<noteq> m \<Longrightarrow> ?h1 ! p = ?h ! p" for p
    by (simp add: h1 set_quantity_nth)
  have fr2: "?h1 ! p = ?h ! p" if "p \<in> set ms" for p
  proof -
    from that d have "p \<noteq> taker" "p \<noteq> m" by blast+
    then show ?thesis by (rule fr1)
  qed
  have ms1: "map ((!) ?h1) ms = map ((!) ?h) ms"
    by (simp add: fr2)
  have o1: "orders (fs_level ?s1) = ms" by (simp add: b)
  have t1: "o_quantity (?h1 ! taker) = ?q - ?qm" "o_id (?h1 ! taker) = o_id (?h ! taker)"
    using v by (simp_all add: h1 set_quantity_nth)
  have mn: "min ?q ?qm = ?qm" using le by (rule min_absorb2)
  from pos have q0: "?q \<noteq> 0" by auto
  from post have
    p1: "n \<le> length ms" "orders (fs_level s') = drop n ms"
      "pl_price (fs_level s') = pl_price (fs_level ?s1)"
      "same_static ?h1 (fs_heap s')"
    and p2: "\<forall>p. p \<noteq> taker \<longrightarrow> p \<notin> set ms \<longrightarrow> fs_heap s' ! p = ?h1 ! p"
    and p3: "totalQty (fs_level s') - qsum (fs_heap s') (drop n ms) =
        totalQty (fs_level ?s1) - qsum ?h1 ms"
    and p4: "fs_index s' =
        (\<lambda>i. if i \<in> (\<lambda>p. o_id (?h1 ! p)) ` set (take n ms) then None else fs_index ?s1 i)"
    and p5: "o_quantity (fs_heap s' ! taker) = 0 \<or> n = length ms"
    and p6: "fs_trades s' = fs_trades ?s1 @
        spec_fills (o_id (?h1 ! taker)) (o_quantity (?h1 ! taker)) (map ((!) ?h1) ms)"
    and p7: "o_quantity (fs_heap s' ! taker) =
        spec_rem (o_quantity (?h1 ! taker)) (map ((!) ?h1) ms)"
    unfolding fill_post_def Let_def o1 by blast+
  have a1: "Suc n \<le> length (m # ms)" using p1 by simp
  have a2: "orders (fs_level s') = drop (Suc n) (m # ms)" using p1 by simp
  have a3: "pl_price (fs_level s') = pl_price (fs_level s)" using p1 by (simp add: b)
  have a4: "same_static ?h (fs_heap s')" using st1 p1(4) by (rule same_static_trans)
  have a5: "\<forall>p. p \<noteq> taker \<longrightarrow> p \<notin> set (m # ms) \<longrightarrow> fs_heap s' ! p = ?h ! p"
    using p2 fr1 by auto
  have "qsum ?h1 ms = qsum ?h ms"
    by (rule qsum_frame) (simp add: fr2)
  then have a6: "totalQty (fs_level s') - qsum (fs_heap s') (drop (Suc n) (m # ms)) =
      totalQty (fs_level s) - qsum ?h (m # ms)"
    using p3 by (simp add: b)
  have ids: "o_id (?h1 ! p) = o_id (?h ! p)" if "p \<in> set (take n ms)" for p
  proof -
    from that have "p \<in> set ms" by (rule in_set_takeD)
    with d have "p < length ?h" by blast
    with st1 show ?thesis by (simp add: same_static_def)
  qed
  have a7: "fs_index s' =
      (\<lambda>i. if i \<in> (\<lambda>p. o_id (?h ! p)) ` set (take (Suc n) (m # ms)) then None else fs_index s i)"
  proof -
    have im: "(\<lambda>p. o_id (?h1 ! p)) ` set (take n ms) = (\<lambda>p. o_id (?h ! p)) ` set (take n ms)"
      by (rule image_cong [OF refl]) (rule ids)
    have ix: "fs_index ?s1 = (fs_index s)(o_id (?h ! m) := None)" by (simp add: b)
    show ?thesis unfolding p4 im ix by (rule ext) auto
  qed
  have a8: "o_quantity (fs_heap s' ! taker) = 0 \<or> Suc n = length (m # ms)"
    using p5 by simp
  have a9: "fs_trades s' = fs_trades s @
      spec_fills (o_id (?h ! taker)) ?q (map ((!) ?h) (m # ms))"
    unfolding p6 t1 ms1 using q0 by (simp add: b mn)
  have a10: "o_quantity (fs_heap s' ! taker) = spec_rem ?q (map ((!) ?h) (m # ms))"
    unfolding p7 t1 ms1 using q0 by (simp add: mn)
  show ?thesis
    unfolding fill_post_def Let_def ps
    using a1 a2 a3 a4 a5 a6 a7 a8 a9 a10 by blast
qed

lemma fillLevel_total:
  assumes "orders (fs_level s) = ps" "taker < length (fs_heap s)" "taker \<notin> set ps"
    "\<forall>p \<in> set ps. p < length (fs_heap s)" "distinct ps"
  shows "\<exists>s' n. fillLevel taker s = Some s' \<and> fill_post taker s s' n"
  using assms
proof (induction ps arbitrary: s)
  case Nil
  then have nc: "\<not> fillLevel_cond taker s" by (simp add: fillLevel_cond_def PriceLevel_empty_def)
  from fillLevel_stop [OF nc] fill_post_stop [OF nc] show ?case by blast
next
  case (Cons m ms)
  show ?case
  proof (cases "fillLevel_cond taker s")
    case False
    from fillLevel_stop [OF False] fill_post_stop [OF False] show ?thesis by blast
  next
    case True
    then have pos: "0 < o_quantity (fs_heap s ! taker)" by (simp add: fillLevel_cond_def)
    from Cons.prems have v: "taker < length (fs_heap s)" "m < length (fs_heap s)" "taker \<noteq> m"
      and d: "m \<notin> set ms" "taker \<notin> set ms" "\<forall>p \<in> set ms. p < length (fs_heap s)"
      and dm: "distinct ms" and ps: "orders (fs_level s) = m # ms"
      by auto
    let ?s1 = "fillLevel_body taker s"
    show ?thesis
    proof (cases "o_quantity (fs_heap s ! m) \<le> o_quantity (fs_heap s ! taker)")
      case le: True
      note b = fillLevel_body_pop [OF ps v le]
      have "orders (fs_level ?s1) = ms" "taker < length (fs_heap ?s1)"
        "\<forall>p \<in> set ms. p < length (fs_heap ?s1)"
        using v d by (simp_all add: b)
      from Cons.IH [OF this(1,2) d(2) this(3) dm] obtain s' n where
        r: "fillLevel taker ?s1 = Some s'" "fill_post taker ?s1 s' n" by blast
      from fill_post_pop [OF ps v d pos le r(2)] r(1) fillLevel_step [OF True]
      show ?thesis by auto
    next
      case False
      then have lt: "o_quantity (fs_heap s ! taker) < o_quantity (fs_heap s ! m)" by simp
      note b = fillLevel_body_stay [OF ps v lt]
      have "o_quantity (fs_heap ?s1 ! taker) = 0"
        using v by (simp add: b set_quantity_nth)
      then have "\<not> fillLevel_cond taker ?s1" by (simp add: fillLevel_cond_def)
      from fillLevel_stop [OF this] fillLevel_step [OF True]
        fill_post_stay [OF ps v d(1,2) pos lt]
      show ?thesis by auto
    qed
  qed
qed

section \<open>The loop of match\<close>

lemma levels_set_levels [simp]:
  "levels s (set_levels s' m b) = (if s = s' then m else levels s b)"
  by (cases s; cases s') auto

lemma index_set_levels [simp]: "index (set_levels s m b) = index b"
  by (cases s) auto

lemma levels_index_update [simp]: "levels s (b\<lparr>index := i\<rparr>) = levels s b"
  by (cases s) auto

lemma book_inv_levels:
  "book_inv h b = ((\<forall>s. side_ok h s (levels s b)) \<and> index_ok h b \<and> no_cross b)"
proof -
  have "(\<forall>s. side_ok h s (levels s b)) = (side_ok h Buy (bids b) \<and> side_ok h Sell (asks b))"
    by (metis Side.exhaust levels.simps)
  then show ?thesis by (auto simp: book_inv_def)
qed

lemma match_inv_levels:
  "match_inv taker e =
     (book_inv (storage e) (book e) \<and> taker < length (storage e) \<and>
      (\<forall>s. taker \<notin> set (ptrs_of (levels s (book e)))))"
proof -
  have "(\<forall>s. taker \<notin> set (ptrs_of (levels s (book e)))) =
      (taker \<notin> set (ptrs_of (bids (book e))) \<and> taker \<notin> set (ptrs_of (asks (book e))))"
    by (metis Side.exhaust levels.simps)
  then show ?thesis by (auto simp: match_inv_def)
qed

lemma no_cross_keys:
  "no_cross b \<Longrightarrow> set (map fst (bids b')) \<subseteq> set (map fst (bids b)) \<Longrightarrow>
   set (map fst (asks b')) \<subseteq> set (map fst (asks b)) \<Longrightarrow> no_cross b'"
  unfolding no_cross_def by blast

lemma no_cross_levels:
  assumes "no_cross b" "\<And>s. set (map fst (levels s b')) \<subseteq> set (map fst (levels s b))"
  shows "no_cross b'"
  using assms(2) [of Buy] assms(2) [of Sell] by (intro no_cross_keys [OF assms(1)]) simp_all

lemma level_ok_frame:
  assumes "level_ok h s k l" "same_static h h'" "\<And>p. p \<in> set (orders l) \<Longrightarrow> h' ! p = h ! p"
  shows "level_ok h' s k l"
proof -
  have "qsum h' (orders l) = qsum h (orders l)"
    by (rule qsum_frame) (simp add: assms(3))
  with assms show ?thesis by (auto simp: level_ok_def same_static_def)
qed

lemma in_ptrs_of: "x \<in> set m \<Longrightarrow> p \<in> set (orders (snd x)) \<Longrightarrow> p \<in> set (ptrs_of m)"
  by (auto simp: ptrs_of_def)

lemma side_ok_frame:
  assumes "side_ok h s m" "same_static h h'" "\<And>p. p \<in> set (ptrs_of m) \<Longrightarrow> h' ! p = h ! p"
  shows "side_ok h' s m"
proof -
  have "level_ok h' s (fst x) (snd x)" if "x \<in> set m" for x
  proof (rule level_ok_frame [OF _ assms(2)])
    from that assms(1) show "level_ok h s (fst x) (snd x)" by (simp add: side_ok_def)
    fix p assume "p \<in> set (orders (snd x))"
    with that have "p \<in> set (ptrs_of m)" by (rule in_ptrs_of)
    then show "h' ! p = h ! p" by (rule assms(3))
  qed
  with assms(1) show ?thesis by (simp add: side_ok_def)
qed

lemma side_ok_ptr:
  "side_ok h s m \<Longrightarrow> p \<in> set (ptrs_of m) \<Longrightarrow> p < length h \<and> o_side (h ! p) = s"
  by (auto simp: side_ok_def ptrs_of_def level_ok_def)

lemma past_limit_mono:
  "past_limit opp k P \<Longrightarrow> key_comp opp k k' \<Longrightarrow> past_limit opp k' P"
  by (cases opp) auto

lemma match_store_fields:
  assumes "levels opp (book e) = (key, level) # rest"
  shows "levels opp (book (match_store opp key e s)) =
           (if orders (fs_level s) = [] then rest else (key, fs_level s) # rest)"
    and "sd \<noteq> opp \<Longrightarrow> levels sd (book (match_store opp key e s)) = levels sd (book e)"
    and "index (book (match_store opp key e s)) = fs_index s"
    and "storage (match_store opp key e s) = fs_heap s"
    and "nextOrderId (match_store opp key e s) = nextOrderId e"
  using assms
  by (auto simp: match_store_def Let_def OrderBook_cleanLevel_def PriceLevel_empty_def)

lemma side_ok_Cons:
  "side_ok h s ((k, l) # rest) =
     ((\<forall>k' \<in> set (map fst rest). key_comp s k k') \<and> set (orders l) \<inter> set (ptrs_of rest) = {} \<and>
      distinct (orders l) \<and> level_ok h s k l \<and> side_ok h s rest)"
  by (auto simp: side_ok_def ptrs_of_Cons)

lemma side_ok_Nil [simp]: "side_ok h s []"
  by (simp add: side_ok_def ptrs_of_def)

lemma match_iter_ptrs:
  assumes lv: "levels opp (book e) = (key, level) # rest"
    and fp: "fill_post taker
        \<lparr>fs_heap = storage e, fs_index = index (book e), fs_level = level, fs_trades = trades\<rparr> s' n"
  shows "set (ptrs_of (levels s (book (match_store opp key e s')))) \<subseteq>
         set (ptrs_of (levels s (book e)))"
proof (cases "s = opp")
  case True
  from fp have ol: "orders (fs_level s') = drop n (orders level)"
    unfolding fill_post_def Let_def by simp
  from True show ?thesis
    using set_drop_subset [of n "orders level"]
    by (auto simp: match_store_fields(1) [OF lv] lv ptrs_of_Cons ol)
next
  case False
  then show ?thesis by (simp add: match_store_fields(2) [OF lv])
qed

lemma match_iter_inv:
  assumes mi: "match_inv taker e"
    and lv: "levels opp (book e) = (key, level) # rest"
    and fp: "fill_post taker
        \<lparr>fs_heap = storage e, fs_index = index (book e), fs_level = level, fs_trades = trades\<rparr> s' n"
  shows "match_inv taker (match_store opp key e s')"
proof -
  let ?h = "storage e" and ?h' = "fs_heap s'" and ?b = "book e" and ?ps = "orders level"
  let ?e1 = "match_store opp key e s'"
  let ?b1 = "book ?e1"
  note ms = match_store_fields [OF lv, where s = s']
  from fp have
    n: "n \<le> length ?ps" and ol: "orders (fs_level s') = drop n ?ps"
    and st: "same_static ?h ?h'"
    and fr: "\<And>p. p \<noteq> taker \<Longrightarrow> p \<notin> set ?ps \<Longrightarrow> ?h' ! p = ?h ! p"
    and tot: "totalQty (fs_level s') - qsum ?h' (drop n ?ps) = totalQty level - qsum ?h ?ps"
    and ix: "fs_index s' =
        (\<lambda>i. if i \<in> (\<lambda>p. o_id (?h ! p)) ` set (take n ?ps) then None else index ?b i)"
    unfolding fill_post_def Let_def by (simp_all cong: if_cong)
  from mi have so: "\<And>s. side_ok ?h s (levels s ?b)" and io: "index_ok ?h ?b" and nc: "no_cross ?b"
    and tv: "taker < length ?h" and tn: "\<And>s. taker \<notin> set (ptrs_of (levels s ?b))"
    by (simp_all add: match_inv_levels book_inv_levels)
  from so [of opp] have
    key_lt: "\<forall>k' \<in> set (map fst rest). key_comp opp key k'"
    and disj: "set ?ps \<inter> set (ptrs_of rest) = {}" and dps: "distinct ?ps"
    and lok: "level_ok ?h opp key level" and rok: "side_ok ?h opp rest"
    by (simp_all add: lv side_ok_Cons)
  have len: "length ?h' = length ?h" using st by (simp add: same_static_def)
  have F1: "?h' ! p = ?h ! p" if "p \<in> set (ptrs_of rest)" for p
  proof (rule fr)
    from that tn [of opp] show "p \<noteq> taker" by (auto simp: lv ptrs_of_Cons)
    from that disj show "p \<notin> set ?ps" by blast
  qed
  have F2: "?h' ! p = ?h ! p" if "s \<noteq> opp" "p \<in> set (ptrs_of (levels s ?b))" for s p
  proof (rule fr)
    from that tn [of s] show "p \<noteq> taker" by auto
    from side_ok_ptr [OF so [of s] that(2)] have "o_side (?h ! p) = s" by simp
    moreover have "o_side (?h ! q) = opp" if "q \<in> set ?ps" for q
      using lok that by (simp add: level_ok_def)
    ultimately show "p \<notin> set ?ps" using that(1) by blast
  qed
  have rok': "side_ok ?h' opp rest"
    using rok st F1 by (rule side_ok_frame)
  have G1: "side_ok ?h' s (levels s ?b1)" for s
  proof (cases "s = opp")
    case False
    then have "levels s ?b1 = levels s ?b" by (rule ms(2))
    moreover have "side_ok ?h' s (levels s ?b)"
      using so [of s] st F2 [OF False] by (rule side_ok_frame)
    ultimately show ?thesis by simp
  next
    case True
    show ?thesis
    proof (cases "drop n ?ps = []")
      case e: True
      then show ?thesis using rok' True by (simp add: ms(1) ol)
    next
      case ne: False
      have sub: "set (drop n ?ps) \<subseteq> set ?ps" by (rule set_drop_subset)
      from lok have "totalQty level = qsum ?h ?ps" by (simp add: level_ok_def)
      with tot have "totalQty (fs_level s') = qsum ?h' (drop n ?ps)" by simp
      moreover have "p < length ?h' \<and> o_side (?h' ! p) = opp \<and> o_price (?h' ! p) = key"
        if "p \<in> set (drop n ?ps)" for p
      proof -
        from that sub have "p \<in> set ?ps" by blast
        with lok have "p < length ?h \<and> o_side (?h ! p) = opp \<and> o_price (?h ! p) = key"
          by (simp add: level_ok_def)
        with st show ?thesis by (simp add: same_static_def)
      qed
      ultimately have "level_ok ?h' opp key (fs_level s')"
        using ne by (simp add: level_ok_def ol)
      moreover have "set (orders (fs_level s')) \<inter> set (ptrs_of rest) = {}"
        using disj sub by (auto simp: ol)
      moreover have "distinct (orders (fs_level s'))"
        using dps by (simp add: ol)
      ultimately have "side_ok ?h' opp ((key, fs_level s') # rest)"
        using key_lt rok' by (simp add: side_ok_Cons)
      with ne True show ?thesis by (simp add: ms(1) ol)
    qed
  qed
  have keys: "set (map fst (levels s ?b1)) \<subseteq> set (map fst (levels s ?b))" for s
  proof (cases "s = opp")
    case True
    then show ?thesis by (auto simp: ms(1) lv)
  next
    case False
    then show ?thesis by (simp add: ms(2))
  qed
  have ptrs: "set (ptrs_of (levels s ?b1)) \<subseteq> set (ptrs_of (levels s ?b))" for s
  proof (cases "s = opp")
    case True
    then show ?thesis
      using set_drop_subset [of n ?ps] by (auto simp: ms(1) lv ptrs_of_Cons ol)
  next
    case False
    then show ?thesis by (simp add: ms(2))
  qed
  have G3: "no_cross ?b1" using nc keys by (rule no_cross_levels)
  have G5: "taker \<notin> set (ptrs_of (levels s ?b1))" for s
    using tn [of s] ptrs [of s] by blast
  have G2: "index_ok ?h' ?b1"
    unfolding index_ok_def
  proof (intro allI impI)
    fix i p
    assume "index ?b1 i = Some p"
    then have ip: "fs_index s' i = Some p" by (simp add: ms(3))
    then have ni: "i \<notin> (\<lambda>p. o_id (?h ! p)) ` set (take n ?ps)" and ib: "index ?b i = Some p"
      by (auto simp: ix split: if_splits)
    from io ib have pv: "p < length ?h" and pid: "o_id (?h ! p) = i"
      and ex: "\<exists>l. map_of (levels (o_side (?h ! p)) ?b) (o_price (?h ! p)) = Some l \<and>
          p \<in> set (orders l)"
      unfolding index_ok_def by blast+
    from st pv have eqs: "o_id (?h' ! p) = o_id (?h ! p)" "o_side (?h' ! p) = o_side (?h ! p)"
      "o_price (?h' ! p) = o_price (?h ! p)"
      by (simp_all add: same_static_def)
    from ex obtain l where l: "map_of (levels (o_side (?h ! p)) ?b) (o_price (?h ! p)) = Some l"
      "p \<in> set (orders l)" by blast
    have "\<exists>l. map_of (levels (o_side (?h ! p)) ?b1) (o_price (?h ! p)) = Some l \<and>
        p \<in> set (orders l)"
    proof (cases "o_side (?h ! p) = opp")
      case False
      with l ms(2) [OF False] show ?thesis by auto
    next
      case True
      show ?thesis
      proof (cases "o_price (?h ! p) = key")
        case k: True
        with l True have "l = level" by (simp add: lv)
        with l have "p \<in> set ?ps" by simp
        moreover from ni pid have "p \<notin> set (take n ?ps)" by blast
        ultimately have pd: "p \<in> set (drop n ?ps)"
          by (metis Un_iff append_take_drop_id set_append)
        then have "drop n ?ps \<noteq> []" by auto
        with pd True k show ?thesis by (simp add: ms(1) ol)
      next
        case k: False
        with l True have "map_of rest (o_price (?h ! p)) = Some l" by (simp add: lv)
        with l k True show ?thesis by (auto simp: ms(1))
      qed
    qed
    with pv pid eqs len
    show "p < length ?h' \<and> o_id (?h' ! p) = i \<and>
        (\<exists>l. map_of (levels (o_side (?h' ! p)) ?b1) (o_price (?h' ! p)) = Some l \<and>
             p \<in> set (orders l))"
      by (simp add: ms(4))
  qed
  show ?thesis
    unfolding match_inv_levels book_inv_levels
    using G1 G2 G3 G5 tv len by (simp add: ms(4))
qed

lemma spec_fills_append:
  "spec_fills tid q (xs @ ys) = spec_fills tid q xs @ spec_fills tid (spec_rem q xs) ys"
  by (induction xs arbitrary: q) auto

lemma spec_rem_append: "spec_rem q (xs @ ys) = spec_rem (spec_rem q xs) ys"
  by (induction xs arbitrary: q) auto

lemma fill_postD:
  assumes "fill_post taker s s' n"
  shows "n \<le> length (orders (fs_level s))"
    and "orders (fs_level s') = drop n (orders (fs_level s))"
    and "same_static (fs_heap s) (fs_heap s')"
    and "o_quantity (fs_heap s' ! taker) = 0 \<or> n = length (orders (fs_level s))"
    and "fs_trades s' = fs_trades s @
        spec_fills (o_id (fs_heap s ! taker)) (o_quantity (fs_heap s ! taker))
          (map ((!) (fs_heap s)) (orders (fs_level s)))"
    and "o_quantity (fs_heap s' ! taker) =
        spec_rem (o_quantity (fs_heap s ! taker)) (map ((!) (fs_heap s)) (orders (fs_level s)))"
  using assms unfolding fill_post_def Let_def by blast+

lemma fill_post_index_le:
  assumes "fill_post taker s s' n"
  shows "fs_index s' \<subseteq>\<^sub>m fs_index s"
proof -
  from assms have "fs_index s' =
      (\<lambda>i. if i \<in> (\<lambda>p. o_id (fs_heap s ! p)) ` set (take n (orders (fs_level s)))
           then None else fs_index s i)"
    unfolding fill_post_def Let_def by blast
  then show ?thesis by (simp add: map_le_def dom_def)
qed

lemma match_loop_Nil:
  "levels opp (book e) = [] \<Longrightarrow> match_loop opp taker e trades = Some (e, trades)"
  by (subst match_loop.simps) simp

lemma match_loop_zero:
  "\<not> 0 < o_quantity (storage e ! taker) \<Longrightarrow> match_loop opp taker e trades = Some (e, trades)"
  by (subst match_loop.simps) (simp split: list.splits)

lemma match_loop_past:
  "levels opp (book e) = (key, level) # rest \<Longrightarrow>
   past_limit opp key (o_price (storage e ! taker)) \<Longrightarrow>
   match_loop opp taker e trades = Some (e, trades)"
  by (subst match_loop.simps) simp

lemma match_loop_step:
  "levels opp (book e) = (key, level) # rest \<Longrightarrow> 0 < o_quantity (storage e ! taker) \<Longrightarrow>
   \<not> past_limit opp key (o_price (storage e ! taker)) \<Longrightarrow>
   match_loop opp taker e trades =
     Option.bind
       (fillLevel taker
          \<lparr>fs_heap = storage e, fs_index = index (book e), fs_level = level, fs_trades = trades\<rparr>)
       (\<lambda>s. match_loop opp taker (match_store opp key e s) (fs_trades s))"
  by (subst match_loop.simps) simp

lemma match_iter_frame:
  assumes mi: "match_inv taker e"
    and lv: "levels opp (book e) = (key, level) # rest"
    and fp: "fill_post taker
        \<lparr>fs_heap = storage e, fs_index = index (book e), fs_level = level, fs_trades = trades\<rparr> s' n"
    and p: "p \<in> set (ptrs_of rest)"
  shows "fs_heap s' ! p = storage e ! p"
proof -
  from fp have fr: "\<And>p. p \<noteq> taker \<Longrightarrow> p \<notin> set (orders level) \<Longrightarrow> fs_heap s' ! p = storage e ! p"
    unfolding fill_post_def Let_def by simp
  from mi have "side_ok (storage e) opp (levels opp (book e))"
    and tn: "taker \<notin> set (ptrs_of (levels opp (book e)))"
    by (simp_all add: match_inv_levels book_inv_levels)
  then have disj: "set (orders level) \<inter> set (ptrs_of rest) = {}"
    by (simp add: lv side_ok_Cons)
  show ?thesis
  proof (rule fr)
    from p tn show "p \<noteq> taker" by (auto simp: lv ptrs_of_Cons)
    from p disj show "p \<notin> set (orders level)" by blast
  qed
qed

lemma crossing_Nil [simp]: "crossing opp P [] = []"
  by (simp add: crossing_def)

lemma crossing_Cons:
  "crossing opp P ((k, l) # rest) = (if past_limit opp k P then [] else (k, l) # crossing opp P rest)"
  by (simp add: crossing_def)

lemma ptrs_of_crossing_subset: "set (ptrs_of (crossing opp P m)) \<subseteq> set (ptrs_of m)"
  unfolding crossing_def ptrs_of_def by (auto dest: set_takeWhileD)

lemma match_post_return:
  assumes mi: "match_inv taker e"
    and c: "\<not> 0 < o_quantity (storage e ! taker) \<or> levels opp (book e) = [] \<or>
      (\<exists>key level rest. levels opp (book e) = (key, level) # rest \<and>
         past_limit opp key (o_price (storage e ! taker)))"
  shows "match_post opp taker e trades e trades"
proof -
  let ?t = "storage e ! taker"
  let ?makers = "map ((!) (storage e)) (ptrs_of (crossing opp (o_price ?t) (levels opp (book e))))"
  from c consider "o_quantity ?t = 0" | "levels opp (book e) = []"
    | key level rest where "levels opp (book e) = (key, level) # rest"
      "past_limit opp key (o_price ?t)"
    by (auto simp: word_gt_0)
  then have "match_exit opp taker e \<and> spec_fills (o_id ?t) (o_quantity ?t) ?makers = []
      \<and> spec_rem (o_quantity ?t) ?makers = o_quantity ?t"
  proof cases
    case 1
    then show ?thesis by (simp add: match_exit_def)
  next
    case 2
    then show ?thesis by (simp add: match_exit_def ptrs_of_Nil)
  next
    case 3
    from mi have "side_ok (storage e) opp (levels opp (book e))"
      by (simp add: match_inv_levels book_inv_levels)
    then have "\<forall>k' \<in> set (map fst rest). key_comp opp key k'"
      by (simp add: 3 side_ok_Cons)
    with 3(2) have "\<forall>k' \<in> set (map fst rest). past_limit opp k' (o_price ?t)"
      by (blast intro: past_limit_mono)
    with 3 show ?thesis by (simp add: match_exit_def crossing_Cons ptrs_of_Nil)
  qed
  with mi show ?thesis by (simp add: match_post_def Let_def)
qed

lemma match_loop_total:
  assumes "levels opp (book e) = m" "match_inv taker e"
  shows "\<exists>e' trades'. match_loop opp taker e trades = Some (e', trades') \<and>
           match_post opp taker e trades e' trades'"
  using assms
proof (induction m arbitrary: e trades)
  case Nil
  from match_loop_Nil [OF Nil(1)] match_post_return [OF Nil(2)] Nil(1) show ?case by blast
next
  case (Cons x rest)
  obtain key level where x: "x = (key, level)" by (cases x)
  with Cons.prems have lv: "levels opp (book e) = (key, level) # rest" by simp
  note mi = Cons.prems(2)
  let ?h = "storage e"
  let ?t = "?h ! taker"
  let ?P = "o_price ?t"
  show ?case
  proof (cases "0 < o_quantity ?t")
    case False
    from match_loop_zero [OF False] match_post_return [OF mi] False show ?thesis by blast
  next
    case pos: True
    show ?thesis
    proof (cases "past_limit opp key ?P")
      case True
      from match_loop_past [OF lv True] match_post_return [OF mi] lv True show ?thesis by blast
    next
      case np: False
      let ?s0 = "\<lparr>fs_heap = ?h, fs_index = index (book e), fs_level = level, fs_trades = trades\<rparr>"
      let ?ps = "orders level"
      from mi have so: "side_ok ?h opp (levels opp (book e))"
        and tv: "taker < length ?h" and tn: "taker \<notin> set (ptrs_of (levels opp (book e)))"
        by (simp_all add: match_inv_levels book_inv_levels)
      from so have dps: "distinct ?ps" and lok: "level_ok ?h opp key level"
        by (simp_all add: lv side_ok_Cons)
      from tn have tps: "taker \<notin> set ?ps" by (simp add: lv ptrs_of_Cons)
      from lok have vps: "\<forall>p \<in> set ?ps. p < length ?h" by (simp add: level_ok_def)
      have "\<exists>s' n. fillLevel taker ?s0 = Some s' \<and> fill_post taker ?s0 s' n"
        by (rule fillLevel_total [where ps = ?ps]) (use tv tps vps dps in simp_all)
      then obtain s' n where fl: "fillLevel taker ?s0 = Some s'" and fp: "fill_post taker ?s0 s' n"
        by blast
      let ?e1 = "match_store opp key e s'"
      let ?h1 = "fs_heap s'"
      note ms = match_store_fields [OF lv, where s = s']
      have mi1: "match_inv taker ?e1" using mi lv fp by (rule match_iter_inv)
      have ile: "index (book ?e1) \<subseteq>\<^sub>m index (book e)"
        using fill_post_index_le [OF fp] by (simp add: ms(3))
      have pts: "\<forall>s. set (ptrs_of (levels s (book ?e1))) \<subseteq> set (ptrs_of (levels s (book e)))"
        using match_iter_ptrs [OF lv fp] by blast
      have step: "match_loop opp taker e trades = match_loop opp taker ?e1 (fs_trades s')"
        by (simp add: match_loop_step [OF lv pos np] fl)
      have
        n: "n \<le> length ?ps" and ol: "orders (fs_level s') = drop n ?ps"
        and st: "same_static ?h ?h1"
        and ex: "o_quantity (?h1 ! taker) = 0 \<or> n = length ?ps"
        and tr: "fs_trades s' = trades @ spec_fills (o_id ?t) (o_quantity ?t) (map ((!) ?h) ?ps)"
        and rm: "o_quantity (?h1 ! taker) = spec_rem (o_quantity ?t) (map ((!) ?h) ?ps)"
        using fill_postD [OF fp] by simp_all
      from st tv have t1: "o_id (?h1 ! taker) = o_id ?t" "o_price (?h1 ! taker) = ?P"
        by (simp_all add: same_static_def)
      have cr: "ptrs_of (crossing opp ?P (levels opp (book e))) =
          ?ps @ ptrs_of (crossing opp ?P rest)"
        using np by (simp add: lv crossing_Cons ptrs_of_Cons)
      have fr: "map ((!) ?h1) (ptrs_of (crossing opp ?P rest)) =
          map ((!) ?h) (ptrs_of (crossing opp ?P rest))"
      proof (rule map_cong [OF refl])
        fix p assume "p \<in> set (ptrs_of (crossing opp ?P rest))"
        with ptrs_of_crossing_subset have "p \<in> set (ptrs_of rest)" by blast
        with mi lv fp show "?h1 ! p = ?h ! p" by (rule match_iter_frame)
      qed
      show ?thesis
      proof (cases "n = length ?ps")
        case True
        then have "levels opp (book ?e1) = rest" by (simp add: ms(1) ol)
        from Cons.IH [OF this mi1, of "fs_trades s'"] obtain e' trades' where
          r: "match_loop opp taker ?e1 (fs_trades s') = Some (e', trades')"
          and mp: "match_post opp taker ?e1 (fs_trades s') e' trades'" by blast
        from mp have
          a1: "match_inv taker e'" and a2: "same_static ?h1 (storage e')"
          and a3: "nextOrderId e' = nextOrderId e" and a4: "match_exit opp taker e'"
          and a7: "index (book e') \<subseteq>\<^sub>m index (book ?e1)"
          and a8: "\<forall>s. set (ptrs_of (levels s (book e'))) \<subseteq> set (ptrs_of (levels s (book ?e1)))"
          and a5: "trades' = fs_trades s' @ spec_fills (o_id ?t) (o_quantity (?h1 ! taker))
              (map ((!) ?h) (ptrs_of (crossing opp ?P rest)))"
          and a6: "o_quantity (storage e' ! taker) = spec_rem (o_quantity (?h1 ! taker))
              (map ((!) ?h) (ptrs_of (crossing opp ?P rest)))"
          unfolding match_post_def Let_def
          by (simp_all add: ms(4) ms(5) t1 \<open>levels opp (book ?e1) = rest\<close> fr)
        have "match_post opp taker e trades e' trades'"
          unfolding match_post_def Let_def cr
          using a1 same_static_trans [OF st a2] a3 a4 map_le_trans [OF a7 ile]
            subset_trans [OF a8 [rule_format] pts [rule_format]]
          by (simp add: a5 a6 tr rm spec_fills_append spec_rem_append)
        with r step show ?thesis by auto
      next
        case False
        with ex have z: "o_quantity (?h1 ! taker) = 0" by simp
        then have "\<not> 0 < o_quantity (storage ?e1 ! taker)" by (simp add: ms(4))
        from match_loop_zero [OF this]
        have r: "match_loop opp taker ?e1 (fs_trades s') = Some (?e1, fs_trades s')" .
        have "match_exit opp taker ?e1" by (simp add: match_exit_def ms(4) z)
        moreover from rm z have "spec_rem (o_quantity ?t) (map ((!) ?h) ?ps) = 0" by simp
        ultimately have "match_post opp taker e trades ?e1 (fs_trades s')"
          unfolding match_post_def Let_def cr
          using mi1 st ile pts
          by (simp add: ms(4) ms(5) tr z spec_fills_append spec_rem_append)
        with r step show ?thesis by auto
      qed
    qed
  qed
qed

section \<open>addOrder\<close>

lemma side_ok_append:
  "side_ok h s (m1 @ m2) =
     (side_ok h s m1 \<and> side_ok h s m2 \<and>
      (\<forall>k1 \<in> set (map fst m1). \<forall>k2 \<in> set (map fst m2). key_comp s k1 k2) \<and>
      set (ptrs_of m1) \<inter> set (ptrs_of m2) = {})"
  by (auto simp: side_ok_def sorted_wrt_append ptrs_of_append)

lemma map_of_append_Cons:
  "k \<notin> set (map fst m1) \<Longrightarrow>
   map_of (m1 @ (k, v) # m2) k' = (if k' = k then Some v else map_of (m1 @ m2) k')"
  by (induction m1) auto

lemma map_store_append_Cons:
  "k \<notin> set (map fst m1) \<Longrightarrow> map_store k v (m1 @ (k, l) # m2) = m1 @ (k, v) # m2"
  by (induction m1) auto

text \<open>The shape of the map after addOrder's emplace and write.\<close>

lemma addOrder_shape:
  assumes "sorted_wrt (key_comp s) (map fst m)"
  shows "\<exists>m1 m2 l0.
     (m = m1 @ (P, l0) # m2 \<or> m = m1 @ m2 \<and> l0 = PriceLevel_new P) \<and>
     P \<notin> set (map fst m1) \<and>
     (case map_of (map_emplace s P (PriceLevel_new P) m) P of
        None \<Rightarrow> map_emplace s P (PriceLevel_new P) m
      | Some l \<Rightarrow> map_store P (f l) (map_emplace s P (PriceLevel_new P) m)) =
       m1 @ (P, f l0) # m2 \<and>
     sorted_wrt (key_comp s) (map fst (m1 @ (P, f l0) # m2))"
proof (cases "map_of m P")
  case None
  let ?n = "PriceLevel_new P"
  from map_emplace_absent [OF None, of s ?n] obtain m1 m2 where
    m: "m = m1 @ m2" and em: "map_emplace s P ?n m = m1 @ (P, ?n) # m2"
    by blast
  from None have "P \<notin> fst ` set m" by (simp add: map_of_eq_None_iff)
  with m have nk: "P \<notin> set (map fst m1)" by auto
  have "sorted_wrt (key_comp s) (map fst (m1 @ (P, ?n) # m2))"
    using map_emplace_sorted [OF assms, of P ?n] by (simp add: em)
  then have srt: "sorted_wrt (key_comp s) (map fst (m1 @ (P, f ?n) # m2))" by simp
  have mo: "map_of (map_emplace s P ?n m) P = Some ?n"
    unfolding em map_of_append_Cons [OF nk] by simp
  have st: "map_store P (f ?n) (map_emplace s P ?n m) = m1 @ (P, f ?n) # m2"
    unfolding em using nk by (rule map_store_append_Cons)
  have ce: "(case map_of (map_emplace s P ?n m) P of
        None \<Rightarrow> map_emplace s P ?n m
      | Some l \<Rightarrow> map_store P (f l) (map_emplace s P ?n m)) = m1 @ (P, f ?n) # m2"
    by (simp only: mo st option.case)
  from m nk srt ce show ?thesis by blast
next
  case (Some l0)
  let ?n = "PriceLevel_new P"
  from map_of_split [OF Some] obtain m1 m2 where
    m: "m = m1 @ (P, l0) # m2" and nk: "P \<notin> set (map fst m1)" by blast
  have e: "map_emplace s P ?n m = m" using assms Some by (rule map_emplace_present)
  from assms have srt: "sorted_wrt (key_comp s) (map fst (m1 @ (P, f l0) # m2))"
    by (simp add: m)
  have st: "map_store P (f l0) m = m1 @ (P, f l0) # m2"
    unfolding m using nk by (rule map_store_append_Cons)
  have ce: "(case map_of (map_emplace s P ?n m) P of
        None \<Rightarrow> map_emplace s P ?n m
      | Some l \<Rightarrow> map_store P (f l) (map_emplace s P ?n m)) = m1 @ (P, f l0) # m2"
    by (simp only: e Some st option.case)
  from m nk srt ce show ?thesis by blast
qed

lemma PriceLevel_new_fields [simp]:
  "orders (PriceLevel_new P) = []" "totalQty (PriceLevel_new P) = 0"
  by (simp_all add: PriceLevel_new_def)

lemma PriceLevel_addOrder_fields [simp]:
  "orders (PriceLevel_addOrder l h p) = orders l @ [p]"
  "totalQty (PriceLevel_addOrder l h p) = totalQty l + o_quantity (h ! p)"
  by (simp_all add: PriceLevel_addOrder_def)

lemma other_side_neq [simp]: "other_side s \<noteq> s" "s \<noteq> other_side s"
  by (cases s; simp)+

lemma other_side_twice [simp]: "other_side (other_side s) = s"
  by (cases s) auto

lemma no_cross_sideD:
  "no_cross b \<Longrightarrow> k \<in> set (map fst (levels s b)) \<Longrightarrow>
   k' \<in> set (map fst (levels (other_side s) b)) \<Longrightarrow> past_limit (other_side s) k' k"
  unfolding no_cross_def by (cases s) auto

lemma no_cross_sideI:
  assumes "\<And>k k'. k \<in> set (map fst (levels s b)) \<Longrightarrow>
     k' \<in> set (map fst (levels (other_side s) b)) \<Longrightarrow> past_limit (other_side s) k' k"
  shows "no_cross b"
  unfolding no_cross_def using assms by (cases s) auto

lemma addOrder_levels:
  assumes srt: "sorted_wrt (key_comp (o_side (h ! p))) (map fst (levels (o_side (h ! p)) b))"
  shows "\<exists>m1 m2 l0.
     (levels (o_side (h ! p)) b = m1 @ (o_price (h ! p), l0) # m2 \<or>
      levels (o_side (h ! p)) b = m1 @ m2 \<and> l0 = PriceLevel_new (o_price (h ! p))) \<and>
     o_price (h ! p) \<notin> set (map fst m1) \<and>
     levels (o_side (h ! p)) (OrderBook_addOrder b h p) =
       m1 @ (o_price (h ! p), PriceLevel_addOrder l0 h p) # m2 \<and>
     sorted_wrt (key_comp (o_side (h ! p)))
       (map fst (m1 @ (o_price (h ! p), PriceLevel_addOrder l0 h p) # m2))"
  using addOrder_shape [OF srt, of "o_price (h ! p)" "\<lambda>l. PriceLevel_addOrder l h p"]
  by (simp add: OrderBook_addOrder_def Let_def)

lemma addOrder_other_levels:
  "s \<noteq> o_side (h ! p) \<Longrightarrow> levels s (OrderBook_addOrder b h p) = levels s b"
  by (simp add: OrderBook_addOrder_def Let_def)

lemma addOrder_index:
  "index (OrderBook_addOrder b h p) = (index b)(o_id (h ! p) \<mapsto> p)"
  by (simp add: OrderBook_addOrder_def Let_def)

lemma book_inv_addOrder:
  assumes bi: "book_inv h b" and pv: "p < length h"
    and pn: "\<And>s. p \<notin> set (ptrs_of (levels s b))"
    and pl: "\<forall>k' \<in> set (map fst (levels (other_side (o_side (h ! p))) b)).
        past_limit (other_side (o_side (h ! p))) k' (o_price (h ! p))"
  shows "book_inv h (OrderBook_addOrder b h p)"
proof -
  let ?S = "o_side (h ! p)" and ?P = "o_price (h ! p)"
  let ?b' = "OrderBook_addOrder b h p"
  let ?m = "levels ?S b"
  from bi have so: "\<And>s. side_ok h s (levels s b)" and io: "index_ok h b" and nc: "no_cross b"
    by (simp_all add: book_inv_levels)
  from so [of ?S] have srt: "sorted_wrt (key_comp ?S) (map fst ?m)" by (simp add: side_ok_def)
  from addOrder_levels [OF srt] obtain m1 m2 l0 where
    sh: "?m = m1 @ (?P, l0) # m2 \<or> ?m = m1 @ m2 \<and> l0 = PriceLevel_new ?P"
    and nk: "?P \<notin> set (map fst m1)"
    and lv': "levels ?S ?b' = m1 @ (?P, PriceLevel_addOrder l0 h p) # m2"
    and srt': "sorted_wrt (key_comp ?S) (map fst (m1 @ (?P, PriceLevel_addOrder l0 h p) # m2))"
    by blast
  let ?l' = "PriceLevel_addOrder l0 h p"
  have U1: "ptrs_of ?m = ptrs_of m1 @ orders l0 @ ptrs_of m2"
    using sh by (auto simp: ptrs_of_append ptrs_of_Cons)
  have U2: "set m1 \<union> set m2 \<subseteq> set ?m" using sh by auto
  have U3: "totalQty l0 = qsum h (orders l0) \<and>
      (\<forall>q \<in> set (orders l0). q < length h \<and> o_side (h ! q) = ?S \<and> o_price (h ! q) = ?P)"
    using sh
  proof
    assume "?m = m1 @ (?P, l0) # m2"
    with so [of ?S] have "level_ok h ?S ?P l0" by (simp add: side_ok_append side_ok_Cons)
    then show ?thesis by (simp add: level_ok_def)
  next
    assume "?m = m1 @ m2 \<and> l0 = PriceLevel_new ?P"
    then show ?thesis by simp
  qed
  have U4: "map_of (m1 @ m2) k = map_of ?m k" if "k \<noteq> ?P" for k
    using sh
  proof
    assume a: "?m = m1 @ (?P, l0) # m2"
    show ?thesis unfolding a map_of_append_Cons [OF nk] using that by simp
  next
    assume "?m = m1 @ m2 \<and> l0 = PriceLevel_new ?P"
    then show ?thesis by simp
  qed
  have U5: "l = l0" if "map_of ?m ?P = Some l" for l
    using sh
  proof
    assume a: "?m = m1 @ (?P, l0) # m2"
    from that show ?thesis unfolding a map_of_append_Cons [OF nk] by simp
  next
    assume a: "?m = m1 @ m2 \<and> l0 = PriceLevel_new ?P"
    from srt' have "distinct (map fst (m1 @ (?P, ?l') # m2))" by (rule sorted_keys_distinct)
    then have "?P \<notin> fst ` set (m1 @ m2)" by auto
    then have "map_of (m1 @ m2) ?P = None" by (metis map_of_eq_None_iff)
    with a that show ?thesis by simp
  qed
  have lok: "level_ok h ?S ?P ?l'"
    using U3 pv by (auto simp: level_ok_def)
  have G1: "side_ok h s (levels s ?b')" for s
  proof (cases "s = ?S")
    case False
    then show ?thesis using so [of s] by (simp add: addOrder_other_levels)
  next
    case True
    from so [of ?S] have d: "distinct (ptrs_of ?m)"
      and al: "\<forall>x \<in> set ?m. level_ok h ?S (fst x) (snd x)" by (simp_all add: side_ok_def)
    from d pn [of ?S] have "distinct (ptrs_of (m1 @ (?P, ?l') # m2))"
      unfolding U1 by (auto simp: ptrs_of_append ptrs_of_Cons)
    moreover have "\<forall>x \<in> set (m1 @ (?P, ?l') # m2). level_ok h ?S (fst x) (snd x)"
      using al U2 lok by auto
    ultimately show ?thesis using srt' True by (simp only: lv' side_ok_def)
  qed
  have G2: "index_ok h ?b'"
    unfolding index_ok_def
  proof (intro allI impI)
    fix i q
    assume iq: "index ?b' i = Some q"
    show "q < length h \<and> o_id (h ! q) = i \<and>
         (\<exists>l. map_of (levels (o_side (h ! q)) ?b') (o_price (h ! q)) = Some l \<and> q \<in> set (orders l))"
    proof (cases "i = o_id (h ! p)")
      case True
      with iq have "q = p" by (simp add: addOrder_index)
      moreover have "map_of (levels ?S ?b') ?P = Some ?l'"
        unfolding lv' map_of_append_Cons [OF nk] by simp
      ultimately show ?thesis using pv True by simp
    next
      case False
      with iq have "index b i = Some q" by (simp add: addOrder_index)
      with io obtain l where qv: "q < length h" "o_id (h ! q) = i"
        and l: "map_of (levels (o_side (h ! q)) b) (o_price (h ! q)) = Some l" "q \<in> set (orders l)"
        unfolding index_ok_def by blast
      have "\<exists>l. map_of (levels (o_side (h ! q)) ?b') (o_price (h ! q)) = Some l \<and> q \<in> set (orders l)"
      proof (cases "o_side (h ! q) = ?S")
        case False
        with l show ?thesis by (auto simp: addOrder_other_levels)
      next
        case S: True
        show ?thesis
        proof (cases "o_price (h ! q) = ?P")
          case True
          with l S have "l = l0" by (intro U5) simp
          moreover have "map_of (levels ?S ?b') ?P = Some ?l'"
            unfolding lv' map_of_append_Cons [OF nk] by simp
          ultimately show ?thesis using l S True by auto
        next
          case False
          have "map_of (levels ?S ?b') (o_price (h ! q)) = map_of (m1 @ m2) (o_price (h ! q))"
            unfolding lv' map_of_append_Cons [OF nk] using False by simp
          with U4 [OF False] l S show ?thesis by auto
        qed
      qed
      with qv show ?thesis by simp
    qed
  qed
  have G3: "no_cross ?b'"
  proof (rule no_cross_sideI [where s = ?S])
    fix k k'
    assume k: "k \<in> set (map fst (levels ?S ?b'))"
      and k': "k' \<in> set (map fst (levels (other_side ?S) ?b'))"
    from k' have k'': "k' \<in> set (map fst (levels (other_side ?S) b))"
      by (simp add: addOrder_other_levels)
    from k have "k = ?P \<or> k \<in> set (map fst ?m)"
      unfolding lv' using U2 by auto
    then show "past_limit (other_side ?S) k' k"
    proof
      assume "k = ?P"
      with pl k'' show ?thesis by blast
    next
      assume "k \<in> set (map fst ?m)"
      with nc show ?thesis using k'' by (rule no_cross_sideD)
    qed
  qed
  from G1 G2 G3 show ?thesis by (simp add: book_inv_levels)
qed

lemma addOrder_ptrs:
  assumes srt: "sorted_wrt (key_comp (o_side (h ! p))) (map fst (levels (o_side (h ! p)) b))"
  shows "set (ptrs_of (levels s (OrderBook_addOrder b h p))) \<subseteq>
         insert p (set (ptrs_of (levels s b)))"
proof (cases "s = o_side (h ! p)")
  case False
  then show ?thesis by (auto simp: addOrder_other_levels)
next
  case True
  from addOrder_levels [OF srt] obtain m1 m2 l0 where
    sh: "levels (o_side (h ! p)) b = m1 @ (o_price (h ! p), l0) # m2 \<or>
        levels (o_side (h ! p)) b = m1 @ m2 \<and> l0 = PriceLevel_new (o_price (h ! p))"
    and lv': "levels (o_side (h ! p)) (OrderBook_addOrder b h p) =
        m1 @ (o_price (h ! p), PriceLevel_addOrder l0 h p) # m2"
    by blast
  from sh have "ptrs_of (levels (o_side (h ! p)) b) = ptrs_of m1 @ orders l0 @ ptrs_of m2"
    by (auto simp: ptrs_of_append ptrs_of_Cons)
  then show ?thesis
    unfolding True lv' by (auto simp: ptrs_of_append ptrs_of_Cons)
qed

lemma addOrder_tail:
  assumes srt: "sorted_wrt (key_comp (o_side (h ! p))) (map fst (levels (o_side (h ! p)) b))"
  shows "\<exists>l. map_of (levels (o_side (h ! p)) (OrderBook_addOrder b h p)) (o_price (h ! p)) = Some l \<and>
           orders l \<noteq> [] \<and> last (orders l) = p"
proof -
  from addOrder_levels [OF srt] obtain m1 m2 l0 where
    nk: "o_price (h ! p) \<notin> set (map fst m1)"
    and lv': "levels (o_side (h ! p)) (OrderBook_addOrder b h p) =
        m1 @ (o_price (h ! p), PriceLevel_addOrder l0 h p) # m2"
    by blast
  have "map_of (levels (o_side (h ! p)) (OrderBook_addOrder b h p)) (o_price (h ! p)) =
      Some (PriceLevel_addOrder l0 h p)"
    unfolding lv' map_of_append_Cons [OF nk] by simp
  then show ?thesis by simp
qed

section \<open>submitOrder\<close>

lemma level_ok_heap_append: "level_ok h s k l \<Longrightarrow> level_ok (h @ [x]) s k l"
proof -
  assume a: "level_ok h s k l"
  then have v: "\<forall>p \<in> set (orders l). p < length h" by (simp add: level_ok_def)
  have "qsum (h @ [x]) (orders l) = qsum h (orders l)"
    by (rule qsum_frame) (use v in \<open>simp add: nth_append\<close>)
  with a v show ?thesis by (auto simp: level_ok_def nth_append)
qed

lemma side_ok_heap_append: "side_ok h s m \<Longrightarrow> side_ok (h @ [x]) s m"
  by (auto simp: side_ok_def intro: level_ok_heap_append)

lemma index_ok_heap_append:
  assumes "index_ok h b"
  shows "index_ok (h @ [x]) b"
  unfolding index_ok_def
proof (intro allI impI)
  fix i p
  assume "index b i = Some p"
  with assms have "p < length h \<and> o_id (h ! p) = i \<and>
      (\<exists>l. map_of (levels (o_side (h ! p)) b) (o_price (h ! p)) = Some l \<and> p \<in> set (orders l))"
    unfolding index_ok_def by blast
  then show "p < length (h @ [x]) \<and> o_id ((h @ [x]) ! p) = i \<and>
      (\<exists>l. map_of (levels (o_side ((h @ [x]) ! p)) b) (o_price ((h @ [x]) ! p)) = Some l \<and>
           p \<in> set (orders l))"
    by (simp add: nth_append)
qed

lemma book_inv_heap_append: "book_inv h b \<Longrightarrow> book_inv (h @ [x]) b"
  by (simp add: book_inv_def side_ok_heap_append index_ok_heap_append)

lemma ptrs_valid:
  "book_inv h b \<Longrightarrow> p \<in> set (ptrs_of (levels s b)) \<Longrightarrow> p < length h"
  using side_ok_ptr [of h s "levels s b" p] by (simp add: book_inv_levels)

lemma submit_total:
  assumes ei: "engine_inv e"
  shows "\<exists>trades e'. MatchingEngine_submitOrder e side price qty ts = Some (trades, e') \<and>
           submit_post e side price qty ts trades e'"
proof -
  let ?h = "storage e" and ?raw = "length (storage e)"
  let ?order = "Order_new (nextOrderId e) side price qty ts"
  let ?e1 = "e\<lparr>storage := ?h @ [?order], nextOrderId := nextOrderId e + 1\<rparr>"
  let ?opp = "other_side side"
  let ?ptrs = "ptrs_of (crossing ?opp price (levels ?opp (book e)))"
  let ?makers = "map ((!) ?h) ?ptrs"
  from ei have bi: "book_inv ?h (book e)" and ids: "ids_seq e" by (simp_all add: engine_inv_def)
  have t1: "storage ?e1 ! ?raw = ?order" by simp
  have of1: "o_side ?order = side" "o_price ?order = price" "o_quantity ?order = qty"
    "o_id ?order = nextOrderId e"
    by (simp_all add: Order_new_def)
  have mi1: "match_inv ?raw ?e1"
    unfolding match_inv_levels
  proof (intro conjI allI)
    show "book_inv (storage ?e1) (book ?e1)" using bi by (simp add: book_inv_heap_append)
    show "?raw < length (storage ?e1)" by simp
    show "?raw \<notin> set (ptrs_of (levels s (book ?e1)))" for s
      using ptrs_valid [OF bi, of ?raw s] by auto
  qed
  have m: "MatchingEngine_match ?e1 ?raw = match_loop ?opp ?raw ?e1 []"
    by (cases side) (simp_all add: MatchingEngine_match_def Order_new_def)
  from match_loop_total [OF refl mi1, of ?opp "[]"] obtain e2 trades where
    ml: "match_loop ?opp ?raw ?e1 [] = Some (e2, trades)"
    and mp: "match_post ?opp ?raw ?e1 [] e2 trades" by blast
  have mk: "map ((!) (?h @ [?order])) ?ptrs = ?makers"
  proof (rule map_cong [OF refl])
    fix p assume "p \<in> set ?ptrs"
    with ptrs_of_crossing_subset have "p \<in> set (ptrs_of (levels ?opp (book e)))" by blast
    from ptrs_valid [OF bi this] show "(?h @ [?order]) ! p = ?h ! p" by (simp add: nth_append)
  qed
  from mp have mi2: "match_inv ?raw e2" and st: "same_static (?h @ [?order]) (storage e2)"
    and nx: "nextOrderId e2 = nextOrderId e + 1" and ex: "match_exit ?opp ?raw e2"
    and ile: "index (book e2) \<subseteq>\<^sub>m index (book e)"
    and pts: "\<forall>s. set (ptrs_of (levels s (book e2))) \<subseteq> set (ptrs_of (levels s (book e)))"
    and tr: "trades = spec_fills (nextOrderId e) qty ?makers"
    and rm: "o_quantity (storage e2 ! ?raw) = spec_rem qty ?makers"
    unfolding match_post_def Let_def by (simp_all add: of1 mk)
  from st have len: "length (storage e2) = Suc ?raw" by (simp add: same_static_def)
  from st have f2: "o_side (storage e2 ! ?raw) = side" "o_price (storage e2 ! ?raw) = price"
    "o_id (storage e2 ! ?raw) = nextOrderId e"
    by (simp_all add: same_static_def of1)
  from mi2 have bi2: "book_inv (storage e2) (book e2)"
    and tn: "\<And>s. ?raw \<notin> set (ptrs_of (levels s (book e2)))"
    by (simp_all add: match_inv_levels)
  define e' where "e' = (if 0 < o_quantity (storage e2 ! ?raw)
      then e2\<lparr>book := OrderBook_addOrder (book e2) (storage e2) ?raw\<rparr> else e2)"
  have res: "MatchingEngine_submitOrder e side price qty ts = Some (trades, e')"
    by (simp add: MatchingEngine_submitOrder_def Let_def m ml e'_def)
  have s': "storage e' = storage e2" and n': "nextOrderId e' = nextOrderId e2"
    by (simp_all add: e'_def)
  have ids': "ids_seq e'"
    unfolding ids_seq_def s' n'
  proof (intro conjI allI impI)
    from ids show "nextOrderId e2 = word_of_nat (Suc (length (storage e2)))"
      by (simp add: nx len ids_seq_def)
    fix p assume "p < length (storage e2)"
    then have p: "p < Suc ?raw" by (simp add: len)
    with st have "o_id (storage e2 ! p) = o_id ((?h @ [?order]) ! p)" by (simp add: same_static_def)
    also have "\<dots> = word_of_nat (Suc p)"
      using p ids by (cases "p = ?raw") (auto simp: nth_append Order_new_def ids_seq_def)
    finally show "o_id (storage e2 ! p) = word_of_nat (Suc p)" .
  qed
  have bi': "book_inv (storage e') (book e')"
  proof (cases "0 < o_quantity (storage e2 ! ?raw)")
    case False
    with bi2 show ?thesis by (simp add: e'_def)
  next
    case True
    with ex have pl: "\<forall>k \<in> set (map fst (levels ?opp (book e2))). past_limit ?opp k price"
      by (auto simp: match_exit_def f2)
    have "book_inv (storage e2) (OrderBook_addOrder (book e2) (storage e2) ?raw)"
      by (rule book_inv_addOrder [OF bi2 _ tn]) (use pl in \<open>simp_all add: len f2\<close>)
    with True show ?thesis by (simp add: e'_def)
  qed
  have c1: "engine_inv e'" using bi' ids' by (simp add: engine_inv_def)
  have c2: "nextOrderId e' = nextOrderId e + 1" by (simp add: n' nx)
  have c3: "same_static (?h @ [?order]) (storage e')" using st by (simp add: s')
  have c5: "o_quantity (storage e' ! ?raw) = spec_rem qty ?makers" using rm by (simp add: s')
  have c6: "\<forall>i. i \<noteq> nextOrderId e \<longrightarrow>
      index (book e') i = None \<or> index (book e') i = index (book e) i"
  proof (intro allI impI)
    fix i assume ne: "i \<noteq> nextOrderId e"
    from ile have "index (book e2) i = None \<or> index (book e2) i = index (book e) i"
      by (auto simp: map_le_def dom_def)
    with ne show "index (book e') i = None \<or> index (book e') i = index (book e) i"
      by (simp add: e'_def addOrder_index f2)
  qed
  have c8: "\<forall>s. set (ptrs_of (levels s (book e'))) \<subseteq>
      insert ?raw (set (ptrs_of (levels s (book e))))"
  proof
    fix s
    from bi2 have "side_ok (storage e2) side (levels side (book e2))" by (simp add: book_inv_levels)
    then have "sorted_wrt (key_comp side) (map fst (levels side (book e2)))"
      by (simp add: side_ok_def)
    with addOrder_ptrs [of "storage e2" ?raw "book e2" s]
    have "set (ptrs_of (levels s (OrderBook_addOrder (book e2) (storage e2) ?raw))) \<subseteq>
        insert ?raw (set (ptrs_of (levels s (book e2))))"
      by (simp add: f2)
    with pts show "set (ptrs_of (levels s (book e'))) \<subseteq>
        insert ?raw (set (ptrs_of (levels s (book e))))"
      by (auto simp: e'_def)
  qed
  have c7: "0 < spec_rem qty ?makers \<longrightarrow>
      index (book e') (nextOrderId e) = Some ?raw \<and>
      (\<exists>l. map_of (levels side (book e')) price = Some l \<and> orders l \<noteq> [] \<and> last (orders l) = ?raw)"
  proof
    assume "0 < spec_rem qty ?makers"
    with rm have pos: "0 < o_quantity (storage e2 ! ?raw)" by simp
    from bi2 have "side_ok (storage e2) side (levels side (book e2))" by (simp add: book_inv_levels)
    then have "sorted_wrt (key_comp side) (map fst (levels side (book e2)))"
      by (simp add: side_ok_def)
    from addOrder_tail [of "storage e2" ?raw "book e2"] this pos
    show "index (book e') (nextOrderId e) = Some ?raw \<and>
      (\<exists>l. map_of (levels side (book e')) price = Some l \<and> orders l \<noteq> [] \<and> last (orders l) = ?raw)"
      by (simp add: f2 addOrder_index e'_def)
  qed
  have "submit_post e side price qty ts trades e'"
    unfolding submit_post_def Let_def
    using c1 c2 c3 tr c5 c6 c7 c8 by blast
  with res show ?thesis by blast
qed

section \<open>cancelOrder and modifyQuantity\<close>

lemma removeOrder_scan_Some:
  assumes "\<exists>p \<in> set ps. o_id (h ! p) = i"
  shows "\<exists>q pre post. ps = pre @ q # post \<and> o_id (h ! q) = i \<and>
           (\<forall>x \<in> set pre. o_id (h ! x) \<noteq> i) \<and>
           removeOrder_scan h i ps = Some (o_quantity (h ! q), pre @ post)"
  using assms
proof (induction ps)
  case Nil
  then show ?case by simp
next
  case (Cons a ps)
  show ?case
  proof (cases "o_id (h ! a) = i")
    case True
    have "a # ps = [] @ a # ps \<and> o_id (h ! a) = i \<and> (\<forall>x \<in> set []. o_id (h ! x) \<noteq> i) \<and>
        removeOrder_scan h i (a # ps) = Some (o_quantity (h ! a), [] @ ps)"
      using True by simp
    then show ?thesis by blast
  next
    case False
    with Cons.prems have "\<exists>p \<in> set ps. o_id (h ! p) = i" by auto
    from Cons.IH [OF this] obtain q pre post where
      r: "ps = pre @ q # post" "o_id (h ! q) = i" "\<forall>x \<in> set pre. o_id (h ! x) \<noteq> i"
        "removeOrder_scan h i ps = Some (o_quantity (h ! q), pre @ post)" by blast
    have "a # ps = (a # pre) @ q # post \<and> o_id (h ! q) = i \<and>
        (\<forall>x \<in> set (a # pre). o_id (h ! x) \<noteq> i) \<and>
        removeOrder_scan h i (a # ps) = Some (o_quantity (h ! q), (a # pre) @ post)"
      using r False by simp
    then show ?thesis by blast
  qed
qed

lemma cancel_book_inv:
  assumes bi: "book_inv h b"
  shows "book_inv h (snd (OrderBook_cancelOrder b h i)) \<and>
         index (snd (OrderBook_cancelOrder b h i)) = (index b)(i := None)"
proof (cases "index b i")
  case None
  then have "snd (OrderBook_cancelOrder b h i) = b" by (simp add: OrderBook_cancelOrder_def)
  moreover from None have "(index b)(i := None) = index b" by auto
  ultimately show ?thesis using bi by simp
next
  case (Some p)
  let ?S = "o_side (h ! p)" and ?P = "o_price (h ! p)"
  let ?m = "levels ?S b"
  from bi have so: "\<And>s. side_ok h s (levels s b)" and io: "index_ok h b" and nc: "no_cross b"
    by (simp_all add: book_inv_levels)
  from io Some obtain l where pv: "p < length h" and pid: "o_id (h ! p) = i"
    and ml: "map_of ?m ?P = Some l" and pl: "p \<in> set (orders l)"
    unfolding index_ok_def by blast
  from map_of_split [OF ml] obtain m1 m2 where
    m: "?m = m1 @ (?P, l) # m2" and nk: "?P \<notin> set (map fst m1)"
    and ms: "\<And>v. map_store ?P v ?m = m1 @ (?P, v) # m2" and me: "map_erase ?P ?m = m1 @ m2"
    by blast
  from pl pid have "\<exists>p \<in> set (orders l). o_id (h ! p) = i" by blast
  from removeOrder_scan_Some [OF this] obtain q pre post where
    ps: "orders l = pre @ q # post" and qid: "o_id (h ! q) = i"
    and sc: "removeOrder_scan h i (orders l) = Some (o_quantity (h ! q), pre @ post)" by blast
  let ?l' = "l\<lparr>orders := pre @ post, totalQty := totalQty l - o_quantity (h ! q)\<rparr>"
  let ?m' = "if pre @ post = [] then m1 @ m2 else m1 @ (?P, ?l') # m2"
  let ?b' = "snd (OrderBook_cancelOrder b h i)"
  have rm: "snd (PriceLevel_removeOrder l h i) = ?l'"
    by (simp add: PriceLevel_removeOrder_def sc)
  have b': "?b' = (set_levels ?S ?m' b)\<lparr>index := (index b)(i := None)\<rparr>"
    by (simp add: OrderBook_cancelOrder_def Some Let_def ml rm PriceLevel_empty_def ms me)
  have lv: "levels ?S ?b' = ?m'" and lo: "\<And>s. s \<noteq> ?S \<Longrightarrow> levels s ?b' = levels s b"
    and ix: "index ?b' = (index b)(i := None)"
    unfolding b' by simp_all
  from so [of ?S] have so1: "side_ok h ?S (m1 @ (?P, l) # m2)" by (simp only: m)
  then have lok: "level_ok h ?S ?P l" by (simp add: side_ok_append side_ok_Cons)
  have lok': "level_ok h ?S ?P ?l'" if "pre @ post \<noteq> []"
    using lok that by (auto simp: level_ok_def ps)
  have som': "side_ok h ?S ?m'"
  proof (cases "pre @ post = []")
    case True
    with so1 show ?thesis by (auto simp: side_ok_append side_ok_Cons ptrs_of_Cons)
  next
    case False
    from lok' [OF False] False so1 show ?thesis
      by (auto simp: side_ok_append side_ok_Cons ptrs_of_Cons ps)
  qed
  have G1: "side_ok h s (levels s ?b')" for s
    using som' so [of s] lv lo [of s] by (cases "s = ?S") auto
  have keys: "set (map fst (levels s ?b')) \<subseteq> set (map fst (levels s b))" for s
  proof (cases "s = ?S")
    case True
    then show ?thesis unfolding True lv by (auto simp: m)
  next
    case False
    then show ?thesis by (simp add: lo)
  qed
  have G3: "no_cross ?b'" using nc keys by (rule no_cross_levels)
  have G2: "index_ok h ?b'"
    unfolding index_ok_def
  proof (intro allI impI)
    fix j pj
    assume "index ?b' j = Some pj"
    then have ne: "j \<noteq> i" and ij: "index b j = Some pj" by (auto simp: ix split: if_splits)
    from io ij obtain lj where jv: "pj < length h" and jid: "o_id (h ! pj) = j"
      and mj: "map_of (levels (o_side (h ! pj)) b) (o_price (h ! pj)) = Some lj"
      and pjl: "pj \<in> set (orders lj)"
      unfolding index_ok_def by blast
    have "\<exists>l. map_of (levels (o_side (h ! pj)) ?b') (o_price (h ! pj)) = Some l \<and>
        pj \<in> set (orders l)"
    proof (cases "o_side (h ! pj) = ?S")
      case False
      with mj pjl lo show ?thesis by auto
    next
      case S: True
      show ?thesis
      proof (cases "o_price (h ! pj) = ?P")
        case True
        with mj S ml have "lj = l" by simp
        with pjl have "pj \<in> set (pre @ q # post)" by (simp add: ps)
        moreover from jid qid ne have "pj \<noteq> q" by auto
        ultimately have in': "pj \<in> set (pre @ post)" by auto
        then have "pre @ post \<noteq> []" by auto
        then have "map_of ?m' ?P = Some ?l'"
          using nk by (simp only: if_False map_of_append_Cons [OF nk]) simp
        with in' S True lv show ?thesis by auto
      next
        case False
        have "map_of ?m' (o_price (h ! pj)) = map_of (m1 @ m2) (o_price (h ! pj))"
          using False by (simp add: map_of_append_Cons [OF nk] del: map_of_append)
        also have "\<dots> = map_of ?m (o_price (h ! pj))"
          unfolding m map_of_append_Cons [OF nk] using False by simp
        finally show ?thesis using mj pjl S lv by auto
      qed
    qed
    with jv jid show "pj < length h \<and> o_id (h ! pj) = j \<and>
        (\<exists>l. map_of (levels (o_side (h ! pj)) ?b') (o_price (h ! pj)) = Some l \<and>
             pj \<in> set (orders l))"
      by simp
  qed
  from G1 G2 G3 ix show ?thesis by (simp add: book_inv_levels)
qed

lemma modifyQuantity_book_inv:
  assumes bi: "book_inv h b" and ip: "index b i = Some p"
    and lt: "\<not> o_quantity (h ! p) \<le> newQty"
  shows "\<exists>b'. OrderBook_modifyQuantity b h i newQty = (True, b', set_quantity h p newQty) \<and>
           book_inv (set_quantity h p newQty) b' \<and> index b' = index b"
proof -
  let ?S = "o_side (h ! p)" and ?P = "o_price (h ! p)"
  let ?m = "levels ?S b"
  let ?h' = "set_quantity h p newQty"
  let ?delta = "o_quantity (h ! p) - newQty"
  from bi have so: "\<And>s. side_ok h s (levels s b)" and io: "index_ok h b" and nc: "no_cross b"
    by (simp_all add: book_inv_levels)
  from io ip obtain l where pv: "p < length h" and pid: "o_id (h ! p) = i"
    and ml: "map_of ?m ?P = Some l" and pl: "p \<in> set (orders l)"
    unfolding index_ok_def by blast
  from map_of_split [OF ml] obtain m1 m2 where
    m: "?m = m1 @ (?P, l) # m2" and nk: "?P \<notin> set (map fst m1)"
    and ms: "\<And>v. map_store ?P v ?m = m1 @ (?P, v) # m2"
    by blast
  let ?l' = "PriceLevel_adjustTotal l ?delta"
  let ?m' = "m1 @ (?P, ?l') # m2"
  let ?b' = "set_levels ?S ?m' b"
  have hp: "?h' ! p = (h ! p)\<lparr>o_quantity := newQty\<rparr>" using pv by (simp add: set_quantity_nth)
  have res: "OrderBook_modifyQuantity b h i newQty = (True, ?b', ?h')"
    using lt by (simp add: OrderBook_modifyQuantity_def ip Let_def hp ml ms)
  have st: "same_static h ?h'" by simp
  from so [of ?S] have so1: "side_ok h ?S (m1 @ (?P, l) # m2)" by (simp only: m)
  then have lok: "level_ok h ?S ?P l" and dl: "distinct (orders l)"
    and s1: "side_ok h ?S m1" and s2: "side_ok h ?S m2"
    and d1: "set (ptrs_of m1) \<inter> set (orders l) = {}"
    and d2: "set (orders l) \<inter> set (ptrs_of m2) = {}"
    by (auto simp: side_ok_append side_ok_Cons ptrs_of_Cons)
  have fr1: "?h' ! q = h ! q" if "q \<in> set (ptrs_of m1)" for q
    using that d1 pl by (auto simp: set_quantity_nth)
  have fr2: "?h' ! q = h ! q" if "q \<in> set (ptrs_of m2)" for q
    using that d2 pl by (auto simp: set_quantity_nth)
  have s1': "side_ok ?h' ?S m1" using s1 st fr1 by (rule side_ok_frame)
  have s2': "side_ok ?h' ?S m2" using s2 st fr2 by (rule side_ok_frame)
  have qs: "qsum ?h' (orders l) = qsum h (orders l) - o_quantity (h ! p) + newQty"
    using dl pl pv by (rule qsum_set_quantity_in)
  have lok': "level_ok ?h' ?S ?P ?l'"
    using lok qs by (auto simp: level_ok_def PriceLevel_adjustTotal_def set_quantity_nth)
  have ol: "orders ?l' = orders l" by (simp add: PriceLevel_adjustTotal_def)
  have som': "side_ok ?h' ?S ?m'"
    using so1 s1' s2' lok' by (auto simp: side_ok_append side_ok_Cons ptrs_of_Cons ol)
  have G1: "side_ok ?h' s (levels s ?b')" for s
  proof (cases "s = ?S")
    case True
    with som' show ?thesis by simp
  next
    case False
    have "?h' ! q = h ! q" if "q \<in> set (ptrs_of (levels s b))" for q
    proof -
      from side_ok_ptr [OF so [of s] that] have "o_side (h ! q) = s" by simp
      with False have "q \<noteq> p" by auto
      then show ?thesis by simp
    qed
    with so [of s] st have "side_ok ?h' s (levels s b)" by (rule side_ok_frame)
    with False show ?thesis by simp
  qed
  have keys: "set (map fst (levels s ?b')) \<subseteq> set (map fst (levels s b))" for s
    by (cases "s = ?S") (auto simp: m)
  have G3: "no_cross ?b'" using nc keys by (rule no_cross_levels)
  have mo: "\<exists>l'. map_of (levels s ?b') k = Some l' \<and> orders l' = orders lj"
    if "map_of (levels s b) k = Some lj" for s k lj
  proof (cases "s = ?S \<and> k = ?P")
    case True
    with that ml have "lj = l" by simp
    moreover have "map_of ?m' ?P = Some ?l'" unfolding map_of_append_Cons [OF nk] by simp
    ultimately show ?thesis using True ol by simp
  next
    case False
    have "map_of (levels s ?b') k = map_of (levels s b) k"
    proof (cases "s = ?S")
      case S: True
      with False have k: "k \<noteq> ?P" by simp
      show ?thesis using k unfolding S by (simp add: m map_of_append_Cons [OF nk] del: map_of_append)
    next
      case False
      then show ?thesis by simp
    qed
    with that show ?thesis by simp
  qed
  have G2: "index_ok ?h' ?b'"
    unfolding index_ok_def
  proof (intro allI impI)
    fix j pj
    assume "index ?b' j = Some pj"
    then have ij: "index b j = Some pj" by simp
    from io ij obtain lj where jv: "pj < length h" and jid: "o_id (h ! pj) = j"
      and mj: "map_of (levels (o_side (h ! pj)) b) (o_price (h ! pj)) = Some lj"
      and pjl: "pj \<in> set (orders lj)"
      unfolding index_ok_def by blast
    from mo [OF mj] pjl obtain l' where
      "map_of (levels (o_side (h ! pj)) ?b') (o_price (h ! pj)) = Some l'" "pj \<in> set (orders l')"
      by auto
    moreover from st jv have "o_id (?h' ! pj) = o_id (h ! pj)" "o_side (?h' ! pj) = o_side (h ! pj)"
      "o_price (?h' ! pj) = o_price (h ! pj)" by (simp_all add: same_static_def)
    ultimately show "pj < length ?h' \<and> o_id (?h' ! pj) = j \<and>
        (\<exists>l. map_of (levels (o_side (?h' ! pj)) ?b') (o_price (?h' ! pj)) = Some l \<and>
             pj \<in> set (orders l))"
      using jv jid by auto
  qed
  from G1 G2 G3 have "book_inv ?h' ?b'" by (simp add: book_inv_levels)
  with res show ?thesis by simp
qed

section \<open>The invariant holds after every operation\<close>

lemma engine_inv_new: "engine_inv MatchingEngine_new"
  by (simp add: engine_inv_def book_inv_def MatchingEngine_new_def OrderBook_new_def
      index_ok_def no_cross_def ids_seq_def)

lemma cancelOrder_snd:
  "snd (MatchingEngine_cancelOrder e i) =
     e\<lparr>book := snd (OrderBook_cancelOrder (book e) (storage e) i)\<rparr>"
  by (simp add: MatchingEngine_cancelOrder_def split_def Let_def)

lemma cancel_engine_inv:
  assumes "engine_inv e"
  shows "engine_inv (snd (MatchingEngine_cancelOrder e i))"
    and "index (book (snd (MatchingEngine_cancelOrder e i))) = (index (book e))(i := None)"
    and "storage (snd (MatchingEngine_cancelOrder e i)) = storage e"
    and "nextOrderId (snd (MatchingEngine_cancelOrder e i)) = nextOrderId e"
  using assms cancel_book_inv [of "storage e" "book e" i]
  by (simp_all add: engine_inv_def cancelOrder_snd ids_seq_def)

lemma submit_engine_inv:
  assumes "engine_inv e"
  shows "\<exists>trades e'. MatchingEngine_submitOrder e side price qty ts = Some (trades, e') \<and>
           engine_inv e'"
  using submit_total [OF assms, of side price qty ts] by (auto simp: submit_post_def Let_def)

lemma ids_seq_same_static:
  "ids_seq e \<Longrightarrow> same_static (storage e) h \<Longrightarrow> ids_seq (e\<lparr>book := b, storage := h\<rparr>)"
  by (simp add: ids_seq_def same_static_def)

lemma modify_engine_inv:
  assumes ei: "engine_inv e"
  shows "\<exists>r e'. MatchingEngine_modifyOrder e i newPrice newQty ts = Some (r, e') \<and> engine_inv e'"
proof (cases "index (book e) i")
  case None
  with ei show ?thesis by (simp add: MatchingEngine_modifyOrder_def OrderBook_getOrder_def)
next
  case (Some p)
  show ?thesis
  proof (cases "newPrice = o_price (storage e ! p)")
    case True
    show ?thesis
    proof (cases "o_quantity (storage e ! p) \<le> newQty")
      case le: True
      with ei Some True show ?thesis
        by (simp add: MatchingEngine_modifyOrder_def OrderBook_getOrder_def)
    next
      case False
      from ei have bi: "book_inv (storage e) (book e)" and ids: "ids_seq e"
        by (simp_all add: engine_inv_def)
      from modifyQuantity_book_inv [OF bi Some False] obtain b' where
        r: "OrderBook_modifyQuantity (book e) (storage e) i newQty =
            (True, b', set_quantity (storage e) p newQty)"
        and bi': "book_inv (set_quantity (storage e) p newQty) b'" by blast
      have "ids_seq (e\<lparr>book := b', storage := set_quantity (storage e) p newQty\<rparr>)"
        using ids by (rule ids_seq_same_static) simp
      with bi' have "engine_inv (e\<lparr>book := b', storage := set_quantity (storage e) p newQty\<rparr>)"
        by (simp add: engine_inv_def)
      with Some True False r show ?thesis
        by (simp add: MatchingEngine_modifyOrder_def OrderBook_getOrder_def)
    qed
  next
    case False
    from cancel_engine_inv(1) [OF ei, of i]
    have "engine_inv (snd (MatchingEngine_cancelOrder e i))" .
    from submit_engine_inv [OF this, of "o_side (storage e ! p)" newPrice newQty ts]
    obtain trades e' where
      "MatchingEngine_submitOrder (snd (MatchingEngine_cancelOrder e i)) (o_side (storage e ! p))
         newPrice newQty ts = Some (trades, e')" "engine_inv e'" by blast
    with Some False show ?thesis
      by (simp add: MatchingEngine_modifyOrder_def OrderBook_getOrder_def Let_def)
  qed
qed

lemma apply_op_engine_inv:
  assumes "engine_inv e"
  shows "\<exists>e'. apply_op e x = Some e' \<and> engine_inv e'"
proof (cases x)
  case (Submit side price qty ts)
  with submit_engine_inv [OF assms, of side price qty ts] show ?thesis by auto
next
  case (Cancel i)
  with cancel_engine_inv(1) [OF assms, of i] show ?thesis by simp
next
  case (Modify i price qty ts)
  with modify_engine_inv [OF assms, of i price qty ts] show ?thesis by auto
qed

lemma run_engine_inv:
  "engine_inv e \<Longrightarrow> \<exists>e'. run e ops = Some e' \<and> engine_inv e'"
proof (induction ops arbitrary: e)
  case Nil
  then show ?case by simp
next
  case (Cons x ops)
  from apply_op_engine_inv [OF Cons.prems, of x] obtain e1 where
    "apply_op e x = Some e1" "engine_inv e1" by blast
  with Cons.IH [of e1] show ?case by simp
qed

lemma reachable_inv: "\<exists>e. run MatchingEngine_new ops = Some e \<and> engine_inv e"
  using engine_inv_new by (rule run_engine_inv)

lemma run_cancels:
  "\<exists>e. run e0 (map Cancel is) = Some e \<and> nextOrderId e = nextOrderId e0"
proof (induction "is" arbitrary: e0)
  case Nil
  then show ?case by simp
next
  case (Cons i "is")
  from Cons [of "snd (MatchingEngine_cancelOrder e0 i)"] show ?case
    by (simp add: cancelOrder_snd)
qed

lemma fresh_id:
  assumes ids: "ids_seq e" and len: "length (storage e) < 2 ^ 64" and p: "p < length (storage e)"
  shows "o_id (storage e ! p) \<noteq> nextOrderId e"
proof -
  from ids p have a: "o_id (storage e ! p) = of_nat (Suc p)"
    and b: "nextOrderId e = of_nat (Suc (length (storage e)))"
    by (simp_all add: ids_seq_def)
  have "(of_nat (Suc p) :: 64 word) \<noteq> of_nat (Suc (length (storage e)))"
  proof
    assume "(of_nat (Suc p) :: 64 word) = of_nat (Suc (length (storage e)))"
    then have "(of_nat (Suc (length (storage e))) :: 64 word) - of_nat (Suc p) = 0" by simp
    moreover have "(of_nat (Suc (length (storage e))) :: 64 word) - of_nat (Suc p) =
        of_nat (length (storage e) - p)"
      using p by (simp add: of_nat_diff)
    ultimately have "(of_nat (length (storage e) - p) :: 64 word) = 0" by simp
    moreover have "(of_nat (length (storage e) - p) :: 64 word) \<noteq> 0"
      by (rule of_nat_neq_0) (use p len in simp_all)
    ultimately show False by simp
  qed
  with a b show ?thesis by simp
qed

lemma cancel_ptrs:
  assumes bi: "book_inv h b" and ip: "index b i = Some p"
    and uq: "\<And>q. q < length h \<Longrightarrow> o_id (h ! q) = i \<Longrightarrow> q = p"
  shows "ptrs_of (levels s (snd (OrderBook_cancelOrder b h i))) =
         removeAll p (ptrs_of (levels s b))"
proof -
  let ?S = "o_side (h ! p)" and ?P = "o_price (h ! p)"
  let ?m = "levels ?S b"
  from bi have so: "\<And>s. side_ok h s (levels s b)" and io: "index_ok h b"
    by (simp_all add: book_inv_levels)
  from io ip obtain l where pv: "p < length h" and pid: "o_id (h ! p) = i"
    and ml: "map_of ?m ?P = Some l" and pl: "p \<in> set (orders l)"
    unfolding index_ok_def by blast
  from map_of_split [OF ml] obtain m1 m2 where
    m: "?m = m1 @ (?P, l) # m2" and nk: "?P \<notin> set (map fst m1)"
    and ms: "\<And>v. map_store ?P v ?m = m1 @ (?P, v) # m2" and me: "map_erase ?P ?m = m1 @ m2"
    by blast
  from so [of ?S] have so1: "side_ok h ?S (m1 @ (?P, l) # m2)" by (simp only: m)
  then have lok: "level_ok h ?S ?P l" by (simp add: side_ok_append side_ok_Cons)
  from pl pid have "\<exists>p \<in> set (orders l). o_id (h ! p) = i" by blast
  from removeOrder_scan_Some [OF this] obtain q pre post where
    ps0: "orders l = pre @ q # post" and qid: "o_id (h ! q) = i"
    and sc0: "removeOrder_scan h i (orders l) = Some (o_quantity (h ! q), pre @ post)" by blast
  from ps0 lok have "q < length h" by (simp add: level_ok_def)
  from uq [OF this qid] have qp: "q = p" .
  note ps = ps0 [unfolded qp] and sc = sc0 [unfolded qp]
  let ?l' = "l\<lparr>orders := pre @ post, totalQty := totalQty l - o_quantity (h ! p)\<rparr>"
  let ?m' = "if pre @ post = [] then m1 @ m2 else m1 @ (?P, ?l') # m2"
  let ?b' = "snd (OrderBook_cancelOrder b h i)"
  have rm: "snd (PriceLevel_removeOrder l h i) = ?l'"
    by (simp add: PriceLevel_removeOrder_def sc)
  have b': "?b' = (set_levels ?S ?m' b)\<lparr>index := (index b)(i := None)\<rparr>"
    by (simp add: OrderBook_cancelOrder_def ip Let_def ml rm PriceLevel_empty_def ms me)
  have lv: "levels ?S ?b' = ?m'" and lo: "\<And>s. s \<noteq> ?S \<Longrightarrow> levels s ?b' = levels s b"
    unfolding b' by simp_all
  show ?thesis
  proof (cases "s = ?S")
    case False
    have "p \<notin> set (ptrs_of (levels s b))"
    proof
      assume "p \<in> set (ptrs_of (levels s b))"
      from side_ok_ptr [OF so [of s] this] False show False by simp
    qed
    then show ?thesis using False by (simp add: lo)
  next
    case True
    from so1 have d: "distinct (ptrs_of (m1 @ (?P, l) # m2))" by (simp add: side_ok_def)
    then have n1: "p \<notin> set (ptrs_of m1)" and n2: "p \<notin> set pre" and n3: "p \<notin> set post"
      and n4: "p \<notin> set (ptrs_of m2)"
      by (auto simp: ptrs_of_append ptrs_of_Cons ps)
    have "ptrs_of ?m' = ptrs_of m1 @ pre @ post @ ptrs_of m2"
      by (auto simp: ptrs_of_append ptrs_of_Cons)
    moreover have "removeAll p (ptrs_of ?m) = ptrs_of m1 @ pre @ post @ ptrs_of m2"
      unfolding m using n1 n2 n3 n4 by (simp add: ptrs_of_append ptrs_of_Cons ps)
    ultimately show ?thesis unfolding True lv by simp
  qed
qed

lemma ids_unique:
  assumes ids: "ids_seq e" and len: "length (storage e) < 2 ^ 64"
    and p: "p < length (storage e)" and q: "q < length (storage e)"
    and eq: "o_id (storage e ! q) = o_id (storage e ! p)"
  shows "q = p"
proof -
  from ids p q eq have "(of_nat (Suc q) :: 64 word) = of_nat (Suc p)"
    by (simp add: ids_seq_def)
  then have "(of_nat q :: 64 word) = of_nat p" by simp
  then have "take_bit 64 q = take_bit 64 p"
    by (simp add: word_of_nat_eq_iff)
  moreover have "q < 2 ^ 64" "p < 2 ^ 64" using p q len by simp_all
  ultimately show ?thesis by (simp add: take_bit_nat_eq_self)
qed

section \<open>The trades, one by one\<close>

lemma spec_fills_length: "length (spec_fills tid q ms) \<le> length ms"
  by (induction ms arbitrary: q) auto

lemma spec_fills_nth:
  "k < length (spec_fills tid q ms) \<Longrightarrow>
   spec_fills tid q ms ! k =
     Trade_new (o_id (ms ! k)) tid (o_price (ms ! k))
       (min (q - sum_list (map t_quantity (take k (spec_fills tid q ms)))) (o_quantity (ms ! k)))"
proof (induction ms arbitrary: q k)
  case Nil
  then show ?case by simp
next
  case (Cons m ms)
  from Cons.prems have q0: "q \<noteq> 0" by (auto split: if_splits)
  show ?case
  proof (cases k)
    case 0
    with q0 show ?thesis by simp
  next
    case (Suc j)
    let ?f = "min q (o_quantity m)"
    from Cons.prems Suc q0 have "j < length (spec_fills tid (q - ?f) ms)" by simp
    from Cons.IH [OF this] q0 Suc show ?thesis
      by (simp add: Trade_new_def diff_diff_eq)
  qed
qed

lemma fills_maker_priced_spec:
  assumes "trades = spec_fills (nextOrderId e) qty (map ((!) (storage e))
      (ptrs_of (crossing (other_side side) price (levels (other_side side) (book e)))))"
  shows "fills_maker_priced e side price qty trades"
proof -
  let ?ptrs = "ptrs_of (crossing (other_side side) price (levels (other_side side) (book e)))"
  let ?ms = "map ((!) (storage e)) ?ptrs"
  have len: "length trades \<le> length ?ptrs"
    using spec_fills_length [of "nextOrderId e" qty ?ms] by (simp add: assms)
  have "makerOrderId (trades ! k) = o_id (storage e ! (?ptrs ! k)) \<and>
      takerOrderId (trades ! k) = nextOrderId e \<and>
      t_price (trades ! k) = o_price (storage e ! (?ptrs ! k)) \<and>
      t_quantity (trades ! k) =
        min (qty - sum_list (map t_quantity (take k trades))) (o_quantity (storage e ! (?ptrs ! k)))"
    if "k < length trades" for k
  proof -
    from that len have kl: "k < length ?ptrs" by simp
    from that have "k < length (spec_fills (nextOrderId e) qty ?ms)" by (simp add: assms)
    from spec_fills_nth [OF this] kl show ?thesis
      by (simp add: assms Trade_new_def)
  qed
  with len show ?thesis by (simp add: fills_maker_priced_def Let_def)
qed

lemma fillLevel_body_trade:
  assumes "fillLevel_cond taker s" "PriceLevel_getFront (fs_level s) = Some maker"
  shows "fs_trades (fillLevel_body taker s) = fs_trades s @
     [Trade_new (o_id (fs_heap s ! maker)) (o_id (fs_heap s ! taker)) (o_price (fs_heap s ! maker))
        (min (o_quantity (fs_heap s ! taker)) (o_quantity (fs_heap s ! maker)))]"
  using assms by (simp add: fillLevel_body_def Let_def)

section \<open>Evaluation of the examples\<close>

lemma run_one_bid: "run MatchingEngine_new [Submit Buy 10000 100 0] = Some engine_one_bid"
  by (simp add: MatchingEngine_submitOrder_def MatchingEngine_match_def Order_new_def
      MatchingEngine_new_def OrderBook_new_def match_loop.simps [of _ "0"] engine_one_bid_def
      OrderBook_addOrder_def PriceLevel_new_def PriceLevel_addOrder_def)

lemma engine_inv_one_bid: "engine_inv engine_one_bid"
  using reachable_inv [of "[Submit Buy 10000 100 0]"] by (simp only: run_one_bid) simp

lemma run_ask_bid:
  "run MatchingEngine_new [Submit Sell 10100 100 0, Submit Buy 9900 100 0] = Some engine_ask_bid"
  by (simp add: MatchingEngine_submitOrder_def MatchingEngine_match_def Order_new_def
      MatchingEngine_new_def OrderBook_new_def match_loop.simps [of _ "0"]
      match_loop.simps [of _ "Suc 0"] engine_ask_bid_def
      OrderBook_addOrder_def PriceLevel_new_def PriceLevel_addOrder_def)

lemma engine_inv_ask_bid: "engine_inv engine_ask_bid"
  using reachable_inv [of "[Submit Sell 10100 100 0, Submit Buy 9900 100 0]"]
  by (simp only: run_ask_bid) simp

lemma run_bid_ask:
  "map_option (\<lambda>e. (OrderBook_bestBid (book e), OrderBook_bestAsk (book e)))
     (run MatchingEngine_new [Submit Buy 9950 10 0, Submit Sell 10050 10 0]) =
   Some (Some 9950, Some 10050)"
  by code_simp

lemma submit_ask_bid_trades:
  "map_option fst (MatchingEngine_submitOrder engine_ask_bid Buy 10200 60 0) =
     Some [Trade_new 1 3 10100 60]"
  by code_simp

lemma modify_ask_bid_trades:
  "map_option fst (MatchingEngine_modifyOrder engine_ask_bid 2 10100 100 0) =
     Some (Inr [Trade_new 1 3 10100 100])"
  by code_simp

lemma modify_one_bid_rests:
  "map_option (\<lambda>x. o_quantity (storage (snd x) ! 1))
     (MatchingEngine_modifyOrder engine_one_bid 1 10100 100 0) = Some 100"
  by code_simp

section \<open>Fills are at the maker's price\<close>

text \<open>
  C1. In a state that satisfies the invariant (every state reached from a new engine
  does, by \<open>reachable_inv\<close>), \<^verbatim>\<open>submitOrder\<close> returns, and its trades are these: the \<open>k\<close>-th trade is with the \<open>k\<close>-th resting order that the limit price
  reaches (best price first, oldest first), its price is that maker's resting price and
  its quantity is the minimum of the taker's remaining quantity (the submitted quantity
  less the trades before) and of the maker's remaining quantity. The same holds of the
  trades \<^verbatim>\<open>modifyOrder\<close> returns when it reprices, for the resubmission after the
  cancel. At the fill itself: whenever the body of \<^verbatim>\<open>fillLevel\<close> runs, the one trade it
  appends has the front order's price and the minimum of the two remaining quantities
  as they are in the store at that moment.
\<close>

theorem fills_at_maker_price:
  assumes ei: "engine_inv e"
  shows "(\<exists>trades e'. MatchingEngine_submitOrder e side price qty ts = Some (trades, e') \<and>
            fills_maker_priced e side price qty trades) \<and>
         (\<forall>p. index (book e) i = Some p \<and> newPrice \<noteq> o_price (storage e ! p) \<longrightarrow>
            (\<exists>trades e'. MatchingEngine_modifyOrder e i newPrice newQty ts' = Some (Inr trades, e') \<and>
               fills_maker_priced (snd (MatchingEngine_cancelOrder e i)) (o_side (storage e ! p))
                 newPrice newQty trades)) \<and>
         (\<forall>taker s maker. fillLevel_cond taker s \<and> PriceLevel_getFront (fs_level s) = Some maker
            \<longrightarrow> fs_trades (fillLevel_body taker s) = fs_trades s @
               [Trade_new (o_id (fs_heap s ! maker)) (o_id (fs_heap s ! taker))
                  (o_price (fs_heap s ! maker))
                  (min (o_quantity (fs_heap s ! taker)) (o_quantity (fs_heap s ! maker)))])"
proof -
  have sub: "\<exists>trades e'. MatchingEngine_submitOrder e0 sd pr q t = Some (trades, e') \<and>
      fills_maker_priced e0 sd pr q trades" if "engine_inv e0" for e0 sd pr q t
  proof -
    from submit_total [OF that, of sd pr q t] obtain trades e' where
      r: "MatchingEngine_submitOrder e0 sd pr q t = Some (trades, e')"
      and sp: "submit_post e0 sd pr q t trades e'" by blast
    from sp have "trades = spec_fills (nextOrderId e0) q (map ((!) (storage e0))
        (ptrs_of (crossing (other_side sd) pr (levels (other_side sd) (book e0)))))"
      unfolding submit_post_def Let_def by blast
    then have "fills_maker_priced e0 sd pr q trades" by (rule fills_maker_priced_spec)
    with r show ?thesis by blast
  qed
  have md: "\<exists>trades e'. MatchingEngine_modifyOrder e i newPrice newQty ts' = Some (Inr trades, e') \<and>
      fills_maker_priced (snd (MatchingEngine_cancelOrder e i)) (o_side (storage e ! p))
        newPrice newQty trades"
    if "index (book e) i = Some p" "newPrice \<noteq> o_price (storage e ! p)" for p
  proof -
    from sub [OF cancel_engine_inv(1) [OF ei, of i], of "o_side (storage e ! p)" newPrice newQty ts']
    obtain trades e' where
      "MatchingEngine_submitOrder (snd (MatchingEngine_cancelOrder e i)) (o_side (storage e ! p))
         newPrice newQty ts' = Some (trades, e')"
      "fills_maker_priced (snd (MatchingEngine_cancelOrder e i)) (o_side (storage e ! p))
         newPrice newQty trades" by blast
    with that show ?thesis
      by (simp add: MatchingEngine_modifyOrder_def OrderBook_getOrder_def Let_def)
  qed
  from sub [OF ei] md fillLevel_body_trade show ?thesis by blast
qed

theorem fills_at_maker_price_witness:
  "engine_inv engine_ask_bid \<and>
   map_option fst (MatchingEngine_submitOrder engine_ask_bid Buy 10200 60 0) =
     Some [Trade_new 1 3 10100 60] \<and>
   fills_maker_priced engine_ask_bid Buy 10200 60 [Trade_new 1 3 10100 60] \<and>
   index (book engine_ask_bid) 2 = Some 1 \<and>
   o_price (storage engine_ask_bid ! 1) = 9900 \<and>
   map_option fst (MatchingEngine_modifyOrder engine_ask_bid 2 10100 100 0) =
     Some (Inr [Trade_new 1 3 10100 100]) \<and>
   fills_maker_priced (snd (MatchingEngine_cancelOrder engine_ask_bid 2)) Buy 10100 100
     [Trade_new 1 3 10100 100] \<and>
   fillLevel_cond 1 fill_state_example \<and>
   PriceLevel_getFront (fs_level fill_state_example) = Some 0 \<and>
   fs_trades (fillLevel_body 1 fill_state_example) = [Trade_new 1 2 10000 40]"
proof -
  note t = fills_at_maker_price [OF engine_inv_ask_bid, of Buy 10200 60 0 2 10100 100 0]
  have h: "index (book engine_ask_bid) 2 = Some 1" "o_price (storage engine_ask_bid ! 1) = 9900"
    "o_side (storage engine_ask_bid ! 1) = Buy"
    by (simp_all add: engine_ask_bid_def Order_new_def)
  from t obtain trades e' where
    "MatchingEngine_submitOrder engine_ask_bid Buy 10200 60 0 = Some (trades, e')"
    "fills_maker_priced engine_ask_bid Buy 10200 60 trades" by blast
  with submit_ask_bid_trades
  have a: "fills_maker_priced engine_ask_bid Buy 10200 60 [Trade_new 1 3 10100 60]" by simp
  have "(10100 :: Price) \<noteq> o_price (storage engine_ask_bid ! 1)"
    by (simp add: engine_ask_bid_def Order_new_def)
  with t h(1) obtain trades e' where
    "MatchingEngine_modifyOrder engine_ask_bid 2 10100 100 0 = Some (Inr trades, e')"
    "fills_maker_priced (snd (MatchingEngine_cancelOrder engine_ask_bid 2))
       (o_side (storage engine_ask_bid ! 1)) 10100 100 trades" by blast
  with modify_ask_bid_trades h(3)
  have b: "fills_maker_priced (snd (MatchingEngine_cancelOrder engine_ask_bid 2)) Buy 10100 100
     [Trade_new 1 3 10100 100]" by simp
  have c: "fillLevel_cond 1 fill_state_example"
    "PriceLevel_getFront (fs_level fill_state_example) = Some 0"
    by (simp_all add: fillLevel_cond_def fill_state_example_def Order_new_def
        PriceLevel_empty_def PriceLevel_getFront_def)
  with t have "fs_trades (fillLevel_body 1 fill_state_example) = fs_trades fill_state_example @
      [Trade_new (o_id (fs_heap fill_state_example ! 0)) (o_id (fs_heap fill_state_example ! 1))
         (o_price (fs_heap fill_state_example ! 0))
         (min (o_quantity (fs_heap fill_state_example ! 1))
            (o_quantity (fs_heap fill_state_example ! 0)))]"
    by blast
  then have d: "fs_trades (fillLevel_body 1 fill_state_example) = [Trade_new 1 2 10000 40]"
    by (simp add: fill_state_example_def Order_new_def)
  from engine_inv_ask_bid submit_ask_bid_trades a h(1,2) modify_ask_bid_trades b c d
  show ?thesis by simp
qed

section \<open>Level totals and empty levels\<close>

lemma unat_sum_list:
  "unat (sum_list ws :: 'a::len word) = sum_list (map unat ws) mod 2 ^ LENGTH('a)"
proof (induction ws)
  case Nil
  then show ?case by simp
next
  case (Cons w ws)
  have "unat (w + sum_list ws) = (unat w + unat (sum_list ws)) mod 2 ^ LENGTH('a)"
    by (simp add: unat_word_ariths)
  also have "\<dots> = (unat w + sum_list (map unat ws)) mod 2 ^ LENGTH('a)"
    by (simp add: Cons.IH mod_add_right_eq)
  finally show ?case by simp
qed

lemma unat_qsum:
  assumes "sum_list (map (\<lambda>p. unat (o_quantity (h ! p))) ps) < 2 ^ 64"
  shows "unat (qsum h ps) = sum_list (map (\<lambda>p. unat (o_quantity (h ! p))) ps)"
proof -
  have "unat (qsum h ps) = sum_list (map unat (map (\<lambda>p. o_quantity (h ! p)) ps)) mod 2 ^ LENGTH(64)"
    unfolding qsum_def by (rule unat_sum_list)
  also have "map unat (map (\<lambda>p. o_quantity (h ! p)) ps) = map (\<lambda>p. unat (o_quantity (h ! p))) ps"
    by (simp add: comp_def)
  finally show ?thesis using assms by simp
qed

text \<open>
  C2. After every sequence of public operations on a new engine (the run returns), every
  level of the bids and of the asks holds at least one order, and its cached total is the
  sum of the remaining quantities of its orders: as a sum in \<^verbatim>\<open>Quantity\<close>
  (\<^verbatim>\<open>uint64_t\<close>), the type of the total, and as the sum of the quantities as numbers
  whenever that sum is below \<open>2^64\<close>.
\<close>

theorem level_totals_and_nonempty:
  "\<exists>e. run MatchingEngine_new ops = Some e \<and>
     (\<forall>x \<in> set (bids (book e)) \<union> set (asks (book e)).
        orders (snd x) \<noteq> [] \<and>
        totalQty (snd x) = qsum (storage e) (orders (snd x)) \<and>
        (sum_list (map (\<lambda>p. unat (o_quantity (storage e ! p))) (orders (snd x))) < 2 ^ 64 \<longrightarrow>
           unat (totalQty (snd x)) =
             sum_list (map (\<lambda>p. unat (o_quantity (storage e ! p))) (orders (snd x)))))"
proof -
  from reachable_inv [of ops] obtain e where r: "run MatchingEngine_new ops = Some e"
    and ei: "engine_inv e" by blast
  from ei have "side_ok (storage e) Buy (bids (book e))" "side_ok (storage e) Sell (asks (book e))"
    by (simp_all add: engine_inv_def book_inv_def)
  then have "\<forall>x \<in> set (bids (book e)) \<union> set (asks (book e)).
        orders (snd x) \<noteq> [] \<and> totalQty (snd x) = qsum (storage e) (orders (snd x))"
    by (auto simp: side_ok_def level_ok_def)
  then have "\<forall>x \<in> set (bids (book e)) \<union> set (asks (book e)).
        orders (snd x) \<noteq> [] \<and>
        totalQty (snd x) = qsum (storage e) (orders (snd x)) \<and>
        (sum_list (map (\<lambda>p. unat (o_quantity (storage e ! p))) (orders (snd x))) < 2 ^ 64 \<longrightarrow>
           unat (totalQty (snd x)) =
             sum_list (map (\<lambda>p. unat (o_quantity (storage e ! p))) (orders (snd x))))"
    using unat_qsum by metis
  with r show ?thesis by blast
qed

theorem level_totals_and_nonempty_witness:
  "run MatchingEngine_new [Submit Buy 10000 100 0] = Some engine_one_bid \<and>
   bids (book engine_one_bid) = [(10000, \<lparr>pl_price = 10000, orders = [0], totalQty = 100\<rparr>)] \<and>
   sum_list (map (\<lambda>p. unat (o_quantity (storage engine_one_bid ! p))) [0]) = 100 \<and>
   (\<exists>e. run MatchingEngine_new [Submit Buy 10000 100 0] = Some e \<and>
     (\<forall>x \<in> set (bids (book e)) \<union> set (asks (book e)).
        orders (snd x) \<noteq> [] \<and>
        totalQty (snd x) = qsum (storage e) (orders (snd x)) \<and>
        (sum_list (map (\<lambda>p. unat (o_quantity (storage e ! p))) (orders (snd x))) < 2 ^ 64 \<longrightarrow>
           unat (totalQty (snd x)) =
             sum_list (map (\<lambda>p. unat (o_quantity (storage e ! p))) (orders (snd x))))))"
  using level_totals_and_nonempty [of "[Submit Buy 10000 100 0]"] run_one_bid
  by (simp add: engine_one_bid_def Order_new_def)

section \<open>The book is never crossed\<close>

text \<open>
  C3. After every sequence of public operations on a new engine, when both sides have a
  best price, the best bid is strictly below the best ask (as \<^verbatim>\<open>int64_t\<close> values).
\<close>

theorem best_bid_below_best_ask:
  "\<exists>e. run MatchingEngine_new ops = Some e \<and>
     (\<forall>bid ask. OrderBook_bestBid (book e) = Some bid \<and> OrderBook_bestAsk (book e) = Some ask
        \<longrightarrow> bid <s ask)"
proof -
  from reachable_inv [of ops] obtain e where r: "run MatchingEngine_new ops = Some e"
    and ei: "engine_inv e" by blast
  from ei have nc: "no_cross (book e)" by (simp add: engine_inv_def book_inv_def)
  have "bid <s ask"
    if "OrderBook_bestBid (book e) = Some bid" "OrderBook_bestAsk (book e) = Some ask" for bid ask
  proof -
    from that have "bid \<in> set (map fst (bids (book e)))" "ask \<in> set (map fst (asks (book e)))"
      by (auto simp: OrderBook_bestBid_def OrderBook_bestAsk_def split: list.splits)
    with nc show ?thesis unfolding no_cross_def by blast
  qed
  with r show ?thesis by blast
qed

theorem best_bid_below_best_ask_witness:
  "\<exists>e. run MatchingEngine_new [Submit Buy 9950 10 0, Submit Sell 10050 10 0] = Some e \<and>
     OrderBook_bestBid (book e) = Some 9950 \<and> OrderBook_bestAsk (book e) = Some 10050 \<and>
     (9950 :: Price) <s 10050"
proof -
  from best_bid_below_best_ask [of "[Submit Buy 9950 10 0, Submit Sell 10050 10 0]"]
  obtain e where r: "run MatchingEngine_new [Submit Buy 9950 10 0, Submit Sell 10050 10 0] = Some e"
    and c: "\<And>bid ask. OrderBook_bestBid (book e) = Some bid \<Longrightarrow>
        OrderBook_bestAsk (book e) = Some ask \<Longrightarrow> bid <s ask"
    by blast
  from run_bid_ask r have b: "OrderBook_bestBid (book e) = Some 9950"
    "OrderBook_bestAsk (book e) = Some 10050" by simp_all
  from c [OF b] r b show ?thesis by blast
qed

section \<open>Reprice by modifyOrder\<close>

text \<open>
  C4. In a state that satisfies the invariant (every state reached from a new engine
  does, by \<open>reachable_inv\<close>) and holds fewer than \<open>2^64\<close> orders in its store,
  \<^verbatim>\<open>modifyOrder\<close> of a live id with a price other than the order's price
  cancels the order, submits an order of the same side with the new price and quantity,
  and returns the trades of that submission. The cancel succeeds: the order rests at a
  level of its side before it; after it, every side holds the orders it held, in the
  same sequence, without that order; the id is erased from the index and nothing else
  of the index changes; no order object changes; and the invariant holds. After the
  call the invariant holds again, the old order rests at no level, no order that rests
  at a level has the old id, and a level holds only orders that rested before the call,
  the old one apart, and the new order.
  The new order has the id that
  \<^verbatim>\<open>lastOrderId\<close> returns afterwards; that id differs from the old one, belongs to no
  earlier order and was not in the index. The old id is no longer in the index. If the
  new order has quantity left, the index holds it under the new id and it is the last
  order of the level at the new price on its side.
\<close>

theorem modifyOrder_reprice:
  assumes ei: "engine_inv e" and ip: "index (book e) i = Some p"
    and np: "newPrice \<noteq> o_price (storage e ! p)"
    and len: "length (storage e) < 2 ^ 64"
  shows "\<exists>trades e'.
     MatchingEngine_modifyOrder e i newPrice newQty ts = Some (Inr trades, e') \<and>
     fst (MatchingEngine_cancelOrder e i) \<and>
     p \<in> set (ptrs_of (levels (o_side (storage e ! p)) (book e))) \<and>
     engine_inv (snd (MatchingEngine_cancelOrder e i)) \<and>
     storage (snd (MatchingEngine_cancelOrder e i)) = storage e \<and>
     index (book (snd (MatchingEngine_cancelOrder e i))) = (index (book e))(i := None) \<and>
     (\<forall>s. ptrs_of (levels s (book (snd (MatchingEngine_cancelOrder e i)))) =
          removeAll p (ptrs_of (levels s (book e)))) \<and>
     engine_inv e' \<and>
     (\<forall>s. set (ptrs_of (levels s (book e'))) \<subseteq>
          insert (length (storage e)) (set (ptrs_of (levels s (book e))) - {p})) \<and>
     (\<forall>s. p \<notin> set (ptrs_of (levels s (book e')))) \<and>
     (\<forall>s q. q \<in> set (ptrs_of (levels s (book e'))) \<longrightarrow> o_id (storage e' ! q) \<noteq> i) \<and>
     MatchingEngine_submitOrder (snd (MatchingEngine_cancelOrder e i))
       (o_side (storage e ! p)) newPrice newQty ts = Some (trades, e') \<and>
     MatchingEngine_lastOrderId e' = nextOrderId e \<and>
     nextOrderId e \<noteq> i \<and>
     (\<forall>q < length (storage e). o_id (storage e ! q) \<noteq> nextOrderId e) \<and>
     \<not> OrderBook_hasOrder (book e) (nextOrderId e) \<and>
     \<not> OrderBook_hasOrder (book e') i \<and>
     o_id (storage e' ! length (storage e)) = nextOrderId e \<and>
     (0 < o_quantity (storage e' ! length (storage e)) \<longrightarrow>
        index (book e') (nextOrderId e) = Some (length (storage e)) \<and>
        (\<exists>l. map_of (levels (o_side (storage e ! p)) (book e')) newPrice = Some l \<and>
             orders l \<noteq> [] \<and> last (orders l) = length (storage e)))"
proof -
  let ?e1 = "snd (MatchingEngine_cancelOrder e i)"
  let ?side = "o_side (storage e ! p)"
  let ?raw = "length (storage e)"
  note c = cancel_engine_inv [OF ei, of i]
  from ei have io: "index_ok (storage e) (book e)" and ids: "ids_seq e"
    by (simp_all add: engine_inv_def book_inv_def)
  from io ip have pv: "p < length (storage e)" and pid: "o_id (storage e ! p) = i"
    unfolding index_ok_def by blast+
  from submit_total [OF c(1), of ?side newPrice newQty ts] obtain trades e' where
    sb: "MatchingEngine_submitOrder ?e1 ?side newPrice newQty ts = Some (trades, e')"
    and sp: "submit_post ?e1 ?side newPrice newQty ts trades e'" by blast
  let ?makers = "map ((!) (storage e))
      (ptrs_of (crossing (other_side ?side) newPrice (levels (other_side ?side) (book ?e1))))"
  from sp have nx: "nextOrderId e' = nextOrderId e + 1"
    and st: "same_static (storage e @ [Order_new (nextOrderId e) ?side newPrice newQty ts])
        (storage e')"
    and rm: "o_quantity (storage e' ! ?raw) = spec_rem newQty ?makers"
    and ix: "\<And>j. j \<noteq> nextOrderId e \<Longrightarrow>
        index (book e') j = None \<or> index (book e') j = index (book ?e1) j"
    and pt: "\<And>s. set (ptrs_of (levels s (book e'))) \<subseteq>
        insert ?raw (set (ptrs_of (levels s (book ?e1))))"
    and ei': "engine_inv e'"
    and tl: "0 < spec_rem newQty ?makers \<Longrightarrow>
        index (book e') (nextOrderId e) = Some ?raw \<and>
        (\<exists>l. map_of (levels ?side (book e')) newPrice = Some l \<and> orders l \<noteq> [] \<and>
             last (orders l) = ?raw)"
    unfolding submit_post_def Let_def c(3) c(4) by blast+
  have g1: "MatchingEngine_modifyOrder e i newPrice newQty ts = Some (Inr trades, e')"
    using ip np sb by (simp add: MatchingEngine_modifyOrder_def OrderBook_getOrder_def Let_def)
  have g2: "fst (MatchingEngine_cancelOrder e i)"
    using ip by (simp add: MatchingEngine_cancelOrder_def OrderBook_cancelOrder_def Let_def
        split_def)
  have g3: "MatchingEngine_lastOrderId e' = nextOrderId e"
    by (simp add: MatchingEngine_lastOrderId_def nx)
  have fr: "\<forall>q < length (storage e). o_id (storage e ! q) \<noteq> nextOrderId e"
    using fresh_id [OF ids len] by blast
  with pv pid have g4: "nextOrderId e \<noteq> i" by blast
  have g5: "\<not> OrderBook_hasOrder (book e) (nextOrderId e)"
  proof
    assume "OrderBook_hasOrder (book e) (nextOrderId e)"
    then obtain q where "index (book e) (nextOrderId e) = Some q"
      by (auto simp: OrderBook_hasOrder_def)
    with io have "q < length (storage e)" "o_id (storage e ! q) = nextOrderId e"
      unfolding index_ok_def by blast+
    with fr show False by blast
  qed
  have "index (book ?e1) i = None" by (simp add: c(2))
  with ix [of i] g4 have g6: "\<not> OrderBook_hasOrder (book e') i"
    by (auto simp: OrderBook_hasOrder_def)
  from st have g7: "o_id (storage e' ! ?raw) = nextOrderId e"
    by (simp add: same_static_def Order_new_def)
  from tl rm have g8: "0 < o_quantity (storage e' ! ?raw) \<longrightarrow>
        index (book e') (nextOrderId e) = Some ?raw \<and>
        (\<exists>l. map_of (levels ?side (book e')) newPrice = Some l \<and> orders l \<noteq> [] \<and>
             last (orders l) = ?raw)"
    by simp
  from ei have bi: "book_inv (storage e) (book e)" by (simp add: engine_inv_def)
  from io ip obtain l where
    "map_of (levels ?side (book e)) (o_price (storage e ! p)) = Some l" "p \<in> set (orders l)"
    unfolding index_ok_def by blast
  then have h1: "p \<in> set (ptrs_of (levels ?side (book e)))"
    by (auto dest: map_of_SomeD intro: in_ptrs_of)
  have uq: "q = p" if "q < length (storage e)" "o_id (storage e ! q) = i" for q
    using ids len pv that(1) by (rule ids_unique) (simp add: that(2) pid)
  have h2: "\<forall>s. ptrs_of (levels s (book ?e1)) = removeAll p (ptrs_of (levels s (book e)))"
    using cancel_ptrs [OF bi ip uq] by (simp add: cancelOrder_snd)
  have h3: "\<forall>s. set (ptrs_of (levels s (book e'))) \<subseteq>
      insert ?raw (set (ptrs_of (levels s (book e))) - {p})"
  proof
    fix s
    from pt [of s] h2 show "set (ptrs_of (levels s (book e'))) \<subseteq>
      insert ?raw (set (ptrs_of (levels s (book e))) - {p})" by auto
  qed
  have h4: "\<forall>s. p \<notin> set (ptrs_of (levels s (book e')))"
  proof
    fix s
    from h3 have "set (ptrs_of (levels s (book e'))) \<subseteq>
      insert ?raw (set (ptrs_of (levels s (book e))) - {p})" by (rule spec)
    with pv show "p \<notin> set (ptrs_of (levels s (book e')))" by auto
  qed
  have h5: "\<forall>s q. q \<in> set (ptrs_of (levels s (book e'))) \<longrightarrow> o_id (storage e' ! q) \<noteq> i"
  proof (intro allI impI)
    fix s q
    assume q: "q \<in> set (ptrs_of (levels s (book e')))"
    from h3 have "set (ptrs_of (levels s (book e'))) \<subseteq>
      insert ?raw (set (ptrs_of (levels s (book e))) - {p})" by (rule spec)
    with q have "q = ?raw \<or> (q \<in> set (ptrs_of (levels s (book e))) \<and> q \<noteq> p)" by auto
    then show "o_id (storage e' ! q) \<noteq> i"
    proof
      assume "q = ?raw"
      with g7 g4 show ?thesis by simp
    next
      assume a: "q \<in> set (ptrs_of (levels s (book e))) \<and> q \<noteq> p"
      from bi have "side_ok (storage e) s (levels s (book e))" by (simp add: book_inv_levels)
      from side_ok_ptr [OF this] a have ql: "q < length (storage e)" by blast
      from st ql have "o_id (storage e' ! q) = o_id (storage e ! q)"
        by (simp add: same_static_def nth_append)
      with uq [OF ql] a show ?thesis by auto
    qed
  qed
  from g1 g2 h1 c(1) c(3) c(2) h2 ei' h3 h4 h5 sb g3 g4 fr g5 g6 g7 g8 show ?thesis by blast
qed

theorem modifyOrder_reprice_witness:
  "engine_inv engine_one_bid \<and> index (book engine_one_bid) 1 = Some 0 \<and>
   o_price (storage engine_one_bid ! 0) = 10000 \<and> length (storage engine_one_bid) < 2 ^ 64 \<and>
   ptrs_of (bids (book engine_one_bid)) = [0] \<and>
   fst (MatchingEngine_cancelOrder engine_one_bid 1) \<and>
   ptrs_of (bids (book (snd (MatchingEngine_cancelOrder engine_one_bid 1)))) = [] \<and>
   index (book (snd (MatchingEngine_cancelOrder engine_one_bid 1))) 1 = None \<and>
   (\<exists>trades e'. MatchingEngine_modifyOrder engine_one_bid 1 10100 100 0 = Some (Inr trades, e') \<and>
      MatchingEngine_lastOrderId e' = 2 \<and> \<not> OrderBook_hasOrder (book e') 1 \<and>
      engine_inv e' \<and>
      0 \<notin> set (ptrs_of (bids (book e'))) \<and> 0 \<notin> set (ptrs_of (asks (book e'))) \<and>
      index (book e') 2 = Some 1 \<and>
      (\<exists>l. map_of (bids (book e')) 10100 = Some l \<and> last (orders l) = 1))"
proof -
  have h: "index (book engine_one_bid) 1 = Some 0" "o_price (storage engine_one_bid ! 0) = 10000"
    "length (storage engine_one_bid) < 2 ^ 64" "o_side (storage engine_one_bid ! 0) = Buy"
    "nextOrderId engine_one_bid = 2" "length (storage engine_one_bid) = 1"
    by (simp_all add: engine_one_bid_def Order_new_def)
  have pb: "ptrs_of (bids (book engine_one_bid)) = [0]"
    by (simp add: engine_one_bid_def ptrs_of_def)
  have np: "(10100 :: Price) \<noteq> o_price (storage engine_one_bid ! 0)" by (simp add: h)
  from modifyOrder_reprice [OF engine_inv_one_bid h(1) np h(3), of 100 0]
  obtain trades e' where
    r: "MatchingEngine_modifyOrder engine_one_bid 1 10100 100 0 = Some (Inr trades, e')"
    and c: "fst (MatchingEngine_cancelOrder engine_one_bid 1)"
    and ci: "index (book (snd (MatchingEngine_cancelOrder engine_one_bid 1))) =
        (index (book engine_one_bid))(1 := None)"
    and cp: "\<forall>s. ptrs_of (levels s (book (snd (MatchingEngine_cancelOrder engine_one_bid 1)))) =
        removeAll 0 (ptrs_of (levels s (book engine_one_bid)))"
    and ei': "engine_inv e'"
    and np': "\<forall>s. 0 \<notin> set (ptrs_of (levels s (book e')))"
    and l0: "MatchingEngine_lastOrderId e' = nextOrderId engine_one_bid"
    and n: "\<not> OrderBook_hasOrder (book e') 1"
    and t0: "0 < o_quantity (storage e' ! length (storage engine_one_bid)) \<longrightarrow>
        index (book e') (nextOrderId engine_one_bid) = Some (length (storage engine_one_bid)) \<and>
        (\<exists>l. map_of (levels (o_side (storage engine_one_bid ! 0)) (book e')) 10100 = Some l \<and>
             orders l \<noteq> [] \<and> last (orders l) = length (storage engine_one_bid))"
    by (elim exE conjE) (rule that)
  from l0 have l: "MatchingEngine_lastOrderId e' = 2" by (simp only: h)
  from t0 have t: "0 < o_quantity (storage e' ! 1) \<longrightarrow>
        index (book e') 2 = Some 1 \<and>
        (\<exists>l. map_of (levels Buy (book e')) 10100 = Some l \<and> orders l \<noteq> [] \<and> last (orders l) = 1)"
    by (simp only: h)
  from cp have "ptrs_of (levels Buy (book (snd (MatchingEngine_cancelOrder engine_one_bid 1)))) =
        removeAll 0 (ptrs_of (levels Buy (book engine_one_bid)))" by (rule spec)
  then have c1: "ptrs_of (bids (book (snd (MatchingEngine_cancelOrder engine_one_bid 1)))) = []"
    by (simp add: pb)
  from ci have c2: "index (book (snd (MatchingEngine_cancelOrder engine_one_bid 1))) 1 = None"
    by simp
  from np' have "0 \<notin> set (ptrs_of (levels Buy (book e')))"
    "0 \<notin> set (ptrs_of (levels Sell (book e')))" by (rule spec)+
  then have n0: "0 \<notin> set (ptrs_of (bids (book e')))" "0 \<notin> set (ptrs_of (asks (book e')))"
    by simp_all
  from modify_one_bid_rests r have "o_quantity (storage e' ! 1) = 100" by simp
  then have "0 < o_quantity (storage e' ! 1)" by simp
  with t have t': "index (book e') 2 = Some 1"
    "\<exists>l. map_of (bids (book e')) 10100 = Some l \<and> last (orders l) = 1" by auto
  from r l n ei' n0 t' have
    "MatchingEngine_modifyOrder engine_one_bid 1 10100 100 0 = Some (Inr trades, e') \<and>
      MatchingEngine_lastOrderId e' = 2 \<and> \<not> OrderBook_hasOrder (book e') 1 \<and>
      engine_inv e' \<and>
      0 \<notin> set (ptrs_of (bids (book e'))) \<and> 0 \<notin> set (ptrs_of (asks (book e'))) \<and>
      index (book e') 2 = Some 1 \<and>
      (\<exists>l. map_of (bids (book e')) 10100 = Some l \<and> last (orders l) = 1)"
    by (intro conjI)
  then have
    "\<exists>trades e'. MatchingEngine_modifyOrder engine_one_bid 1 10100 100 0 = Some (Inr trades, e') \<and>
      MatchingEngine_lastOrderId e' = 2 \<and> \<not> OrderBook_hasOrder (book e') 1 \<and>
      engine_inv e' \<and>
      0 \<notin> set (ptrs_of (bids (book e'))) \<and> 0 \<notin> set (ptrs_of (asks (book e'))) \<and>
      index (book e') 2 = Some 1 \<and>
      (\<exists>l. map_of (bids (book e')) 10100 = Some l \<and> last (orders l) = 1)"
    by blast
  with engine_inv_one_bid h(1,2,3) pb c c1 c2 show ?thesis by (intro conjI)
qed

section \<open>Errors of modifyOrder\<close>

text \<open>
  C5. \<^verbatim>\<open>modifyOrder\<close> throws "Order not found" when the id is not in the index, and
  "Modify can only reduce" when the new price is the order's price and the new quantity
  is not below the order's remaining quantity. In both cases the engine after the call
  (book, index, every order's quantity, id counter) is the engine before it.
\<close>

theorem modifyOrder_errors:
  "(index (book e) i = None \<longrightarrow>
      MatchingEngine_modifyOrder e i newPrice newQty ts = Some (Inl (OrderNotFound i), e)) \<and>
   (\<forall>order. index (book e) i = Some order \<and> newPrice = o_price (storage e ! order) \<and>
        o_quantity (storage e ! order) \<le> newQty \<longrightarrow>
      MatchingEngine_modifyOrder e i newPrice newQty ts = Some (Inl ModifyOnlyReduce, e))"
  by (simp add: MatchingEngine_modifyOrder_def OrderBook_getOrder_def)

theorem modifyOrder_errors_witness:
  "index (book engine_one_bid) 7 = None \<and>
   MatchingEngine_modifyOrder engine_one_bid 7 10000 50 0 =
     Some (Inl (OrderNotFound 7), engine_one_bid) \<and>
   index (book engine_one_bid) 1 = Some 0 \<and>
   o_price (storage engine_one_bid ! 0) = 10000 \<and>
   o_quantity (storage engine_one_bid ! 0) \<le> 100 \<and>
   MatchingEngine_modifyOrder engine_one_bid 1 10000 100 0 =
     Some (Inl ModifyOnlyReduce, engine_one_bid)"
  using modifyOrder_errors [of engine_one_bid 7 10000 50 0]
    modifyOrder_errors [of engine_one_bid 1 10000 100 0]
  by (simp add: engine_one_bid_def Order_new_def)

section \<open>Cancel of an id that is not resting\<close>

text \<open>
  C6. When the id is not in the book's index (\<^verbatim>\<open>hasOrder\<close> is false), \<^verbatim>\<open>cancelOrder\<close>
  returns false and the engine is unchanged. In a state that satisfies the invariant
  this is so whenever no level holds an order with that id (the id was never submitted,
  or its order was filled or cancelled). In particular, after a cancel that returned
  true, a second cancel of the same id returns false and changes nothing.
\<close>

theorem cancelOrder_not_resting:
  "(\<not> OrderBook_hasOrder (book e) i \<longrightarrow> MatchingEngine_cancelOrder e i = (False, e)) \<and>
   (engine_inv e \<and>
    (\<forall>p \<in> set (ptrs_of (bids (book e))) \<union> set (ptrs_of (asks (book e))).
       o_id (storage e ! p) \<noteq> i) \<longrightarrow>
      MatchingEngine_cancelOrder e i = (False, e)) \<and>
   (fst (MatchingEngine_cancelOrder e i) \<longrightarrow>
      MatchingEngine_cancelOrder (snd (MatchingEngine_cancelOrder e i)) i =
        (False, snd (MatchingEngine_cancelOrder e i)))"
proof -
  have a: "MatchingEngine_cancelOrder e i = (False, e)" if "\<not> OrderBook_hasOrder (book e) i"
    using that
    by (simp add: MatchingEngine_cancelOrder_def OrderBook_cancelOrder_def OrderBook_hasOrder_def)
  have b: "\<not> OrderBook_hasOrder (book e) i"
    if ei: "engine_inv e"
      and nl: "\<forall>p \<in> set (ptrs_of (bids (book e))) \<union> set (ptrs_of (asks (book e))).
         o_id (storage e ! p) \<noteq> i"
  proof
    assume "OrderBook_hasOrder (book e) i"
    then obtain p where ip: "index (book e) i = Some p" by (auto simp: OrderBook_hasOrder_def)
    from ei have "index_ok (storage e) (book e)" by (simp add: engine_inv_def book_inv_def)
    with ip obtain l where pid: "o_id (storage e ! p) = i"
      and ml: "map_of (levels (o_side (storage e ! p)) (book e)) (o_price (storage e ! p)) = Some l"
      and pl: "p \<in> set (orders l)"
      unfolding index_ok_def by blast
    from map_of_SomeD [OF ml] pl
    have "p \<in> set (ptrs_of (levels (o_side (storage e ! p)) (book e)))"
      by (auto intro: in_ptrs_of)
    then have "p \<in> set (ptrs_of (bids (book e))) \<union> set (ptrs_of (asks (book e)))"
      by (cases "o_side (storage e ! p)") auto
    with nl pid show False by blast
  qed
  have c: "MatchingEngine_cancelOrder (snd (MatchingEngine_cancelOrder e i)) i =
        (False, snd (MatchingEngine_cancelOrder e i))" if "fst (MatchingEngine_cancelOrder e i)"
    using that
    by (cases "o_side (storage e ! the (index (book e) i))")
      (auto simp add: MatchingEngine_cancelOrder_def OrderBook_cancelOrder_def Let_def
        split: option.splits)
  from a b c show ?thesis by blast
qed

theorem cancelOrder_not_resting_witness:
  "\<not> OrderBook_hasOrder (book engine_one_bid) 7 \<and>
   engine_inv engine_one_bid \<and>
   set (ptrs_of (bids (book engine_one_bid))) \<union> set (ptrs_of (asks (book engine_one_bid))) = {0} \<and>
   o_id (storage engine_one_bid ! 0) \<noteq> 7 \<and>
   MatchingEngine_cancelOrder engine_one_bid 7 = (False, engine_one_bid) \<and>
   fst (MatchingEngine_cancelOrder engine_one_bid 1) \<and>
   MatchingEngine_cancelOrder (snd (MatchingEngine_cancelOrder engine_one_bid 1)) 1 =
     (False, snd (MatchingEngine_cancelOrder engine_one_bid 1))"
proof -
  have a: "\<not> OrderBook_hasOrder (book engine_one_bid) 7"
    by (simp add: OrderBook_hasOrder_def engine_one_bid_def)
  have b: "fst (MatchingEngine_cancelOrder engine_one_bid 1)"
    by (simp add: MatchingEngine_cancelOrder_def OrderBook_cancelOrder_def engine_one_bid_def
        Let_def split_def)
  have c: "set (ptrs_of (bids (book engine_one_bid))) \<union> set (ptrs_of (asks (book engine_one_bid))) = {0}"
    "o_id (storage engine_one_bid ! 0) \<noteq> 7"
    by (simp_all add: engine_one_bid_def ptrs_of_def Order_new_def)
  from a b c engine_inv_one_bid cancelOrder_not_resting [of engine_one_bid 7]
    cancelOrder_not_resting [of engine_one_bid 1]
  show ?thesis by blast
qed

section \<open>The spread\<close>

text \<open>
  C7, as the claim states it, fails: with best bid 9900 and best ask 10100 (cents),
  \<^verbatim>\<open>spread\<close> returns 2, the difference in units of 100 cents, and not 200.
\<close>

theorem spread_not_in_cents:
  "run MatchingEngine_new [Submit Sell 10100 100 0, Submit Buy 9900 100 0] = Some engine_ask_bid \<and>
   OrderBook_bestBid (book engine_ask_bid) = Some 9900 \<and>
   OrderBook_bestAsk (book engine_ask_bid) = Some 10100 \<and>
   OrderBook_spread (book engine_ask_bid) = Some 2 \<and>
   OrderBook_spread (book engine_ask_bid) \<noteq> Some (of_int (sint (10100 - 9900 :: Price)))"
proof -
  have "round_double (round_double 200 / 100) = 2" by code_simp
  then have "OrderBook_bestBid (book engine_ask_bid) = Some 9900 \<and>
   OrderBook_bestAsk (book engine_ask_bid) = Some 10100 \<and>
   OrderBook_spread (book engine_ask_bid) = Some 2 \<and>
   OrderBook_spread (book engine_ask_bid) \<noteq> Some (of_int (sint (10100 - 9900 :: Price)))"
    by (simp add: engine_ask_bid_def OrderBook_spread_def OrderBook_bestBid_def
        OrderBook_bestAsk_def)
  with run_ask_bid show ?thesis by blast
qed

text \<open>
  With best bid 9999 and best ask 10000 the difference is one cent, and \<^verbatim>\<open>spread\<close>
  returns the \<^verbatim>\<open>double\<close> nearest to one hundredth, \<^verbatim>\<open>0x1.47ae147ae147bp-7\<close>.
\<close>

lemma spread_one_cent:
  "map_option (\<lambda>e. (OrderBook_bestBid (book e), OrderBook_bestAsk (book e),
       OrderBook_spread (book e)))
     (run MatchingEngine_new [Submit Buy 9999 100 0, Submit Sell 10000 100 0]) =
   Some (Some 9999, Some 10000, Some (5764607523034235 / 2 ^ 59))"
  by code_simp

text \<open>
  C7, amended. \<^verbatim>\<open>spread\<close> returns nothing exactly when a side is empty. When both
  sides have a best price it returns a \<^verbatim>\<open>double\<close> in major units, not in cents: the
  difference of the best ask and the best bid, taken in \<^verbatim>\<open>int64_t\<close> (wrapped to 64 bits;
  it is the difference of the two prices when that difference fits \<^verbatim>\<open>int64_t\<close>),
  converted to \<^verbatim>\<open>double\<close> and divided by 100, each of the two steps rounded to the
  nearest \<^verbatim>\<open>double\<close>. The result differs from the hundredth of that difference by at
  most the \<open>2^51\<close>-th part of it, and when the difference is \<open>100 * k\<close> and below \<open>2^53\<close>
  in absolute value the result is \<open>k\<close> itself.
\<close>

theorem spread_in_major_units:
  "(OrderBook_spread b = None) = (OrderBook_bestBid b = None \<or> OrderBook_bestAsk b = None) \<and>
   (\<forall>bid ask. OrderBook_bestBid b = Some bid \<and> OrderBook_bestAsk b = Some ask \<longrightarrow>
       OrderBook_spread b =
         Some (round_double (round_double (of_int (sint (ask - bid))) / 100)) \<and>
       (- (2 ^ 63) \<le> sint ask - sint bid \<and> sint ask - sint bid < 2 ^ 63 \<longrightarrow>
          sint (ask - bid) = sint ask - sint bid) \<and>
       (\<exists>r. OrderBook_spread b = Some r \<and>
            \<bar>r - of_int (sint (ask - bid)) / 100\<bar> \<le>
              \<bar>of_int (sint (ask - bid)) / 100\<bar> / 2 ^ 51) \<and>
       (\<forall>k. sint (ask - bid) = 100 * k \<and> \<bar>100 * k\<bar> < 2 ^ 53 \<longrightarrow>
          OrderBook_spread b = Some (of_int k)))"
proof -
  have n: "(OrderBook_spread b = None) =
      (OrderBook_bestBid b = None \<or> OrderBook_bestAsk b = None)"
    by (auto simp: OrderBook_spread_def split: option.splits)
  have s: "OrderBook_spread b =
      Some (round_double (round_double (of_int (sint (ask - bid))) / 100))"
    if "OrderBook_bestBid b = Some bid" "OrderBook_bestAsk b = Some ask" for bid ask
    using that by (simp add: OrderBook_spread_def)
  have w: "round_double (round_double (of_int (sint (ask - bid))) / 100) = of_int k"
    if "sint (ask - bid) = 100 * k" "\<bar>100 * k\<bar> < 2 ^ 53" for bid ask :: Price and k
  proof -
    from that(2) have k: "\<bar>k\<bar> < 2 ^ 53" by simp
    have "round_double (of_int (100 * k)) = of_int (100 * k)"
      using that(2) by (rule round_double_of_int)
    then have "round_double (of_int (100 * k)) / 100 = of_int k" by simp
    then show ?thesis using round_double_of_int [OF k] by (simp only: that(1))
  qed
  show ?thesis
  proof (rule conjI [OF n], intro allI impI, elim conjE)
    fix bid ask
    assume bb: "OrderBook_bestBid b = Some bid" and ba: "OrderBook_bestAsk b = Some ask"
    let ?d = "sint (ask - bid)"
    have 1: "OrderBook_spread b = Some (round_double (round_double (of_int ?d) / 100))"
      using s [OF bb ba] .
    have 2: "- (2 ^ 63) \<le> sint ask - sint bid \<and> sint ask - sint bid < 2 ^ 63 \<longrightarrow>
        ?d = sint ask - sint bid"
      using sint_diff_in_range [of ask bid] by blast
    have 3: "\<exists>r. OrderBook_spread b = Some r \<and>
        \<bar>r - of_int ?d / 100\<bar> \<le> \<bar>of_int ?d / 100\<bar> / 2 ^ 51"
      using 1 round_double_quotient [of "of_int ?d"] by blast
    have 4: "\<forall>k. ?d = 100 * k \<and> \<bar>100 * k\<bar> < 2 ^ 53 \<longrightarrow>
        OrderBook_spread b = Some (of_int k)"
    proof (intro allI impI, elim conjE)
      fix k
      assume "?d = 100 * k" "\<bar>100 * k\<bar> < 2 ^ 53"
      from w [OF this] 1 show "OrderBook_spread b = Some (of_int k)" by (simp only:)
    qed
    from 1 2 3 4 show "OrderBook_spread b =
         Some (round_double (round_double (of_int (sint (ask - bid))) / 100)) \<and>
       (- (2 ^ 63) \<le> sint ask - sint bid \<and> sint ask - sint bid < 2 ^ 63 \<longrightarrow>
          sint (ask - bid) = sint ask - sint bid) \<and>
       (\<exists>r. OrderBook_spread b = Some r \<and>
            \<bar>r - of_int (sint (ask - bid)) / 100\<bar> \<le>
              \<bar>of_int (sint (ask - bid)) / 100\<bar> / 2 ^ 51) \<and>
       (\<forall>k. sint (ask - bid) = 100 * k \<and> \<bar>100 * k\<bar> < 2 ^ 53 \<longrightarrow>
          OrderBook_spread b = Some (of_int k))"
      by (intro conjI)
  qed
qed

theorem spread_in_major_units_witness:
  "OrderBook_bestBid (book engine_ask_bid) = Some 9900 \<and>
   OrderBook_bestAsk (book engine_ask_bid) = Some 10100 \<and>
   sint (10100 - 9900 :: Price) = 100 * 2 \<and> \<bar>100 * 2 :: int\<bar> < 2 ^ 53 \<and>
   OrderBook_spread (book engine_ask_bid) = Some (of_int 2) \<and>
   - (2 ^ 63) \<le> sint (10100 :: Price) - sint (9900 :: Price) \<and>
   sint (10100 :: Price) - sint (9900 :: Price) < 2 ^ 63 \<and>
   sint (10100 - 9900 :: Price) = sint (10100 :: Price) - sint (9900 :: Price) \<and>
   OrderBook_bestAsk (book engine_one_bid) = None \<and>
   OrderBook_spread (book engine_one_bid) = None"
proof -
  have h: "OrderBook_bestBid (book engine_ask_bid) = Some 9900"
    "OrderBook_bestAsk (book engine_ask_bid) = Some 10100"
    "sint (10100 - 9900 :: Price) = 100 * 2" "\<bar>100 * 2 :: int\<bar> < 2 ^ 53"
    "- (2 ^ 63) \<le> sint (10100 :: Price) - sint (9900 :: Price)"
    "sint (10100 :: Price) - sint (9900 :: Price) < 2 ^ 63"
    by (simp_all add: engine_ask_bid_def OrderBook_bestBid_def OrderBook_bestAsk_def)
  have n: "OrderBook_bestAsk (book engine_one_bid) = None"
    by (simp add: engine_one_bid_def OrderBook_bestAsk_def)
  from spread_in_major_units [of "book engine_ask_bid"] h
  have a: "OrderBook_spread (book engine_ask_bid) = Some (of_int 2)"
    and d: "sint (10100 - 9900 :: Price) = sint (10100 :: Price) - sint (9900 :: Price)"
    by blast+
  from spread_in_major_units [of "book engine_one_bid"] n
  have b: "OrderBook_spread (book engine_one_bid) = None" by blast
  from h a d n b show ?thesis by blast
qed

section \<open>submitOrder does not validate\<close>




section \<open>reduceTop\<close>

text \<open>
  C9. \<^verbatim>\<open>reduceTop\<close> tests \<^verbatim>\<open>orders_.empty()\<close> where it should test its negation. On
  a level that holds one order of quantity 100, \<^verbatim>\<open>reduceTop(30)\<close> changes neither the
  order nor the level's total; on an empty level it reads the front of the empty deque.
\<close>

theorem reduceTop_guard_inverted:
  "PriceLevel_reduceTop \<lparr>pl_price = 10000, orders = [0], totalQty = 100\<rparr>
       [Order_new 1 Buy 10000 100 0] 30 =
     Inr (\<lparr>pl_price = 10000, orders = [0], totalQty = 100\<rparr>, [Order_new 1 Buy 10000 100 0]) \<and>
   PriceLevel_reduceTop (PriceLevel_new 10000) [] 30 = Inl FrontOfEmptyDeque"
  by (simp add: PriceLevel_reduceTop_def PriceLevel_new_def)

section \<open>The id 0\<close>

text \<open>
  C10. On a new engine \<^verbatim>\<open>lastOrderId\<close> returns 0, and it still does after any number
  of cancels. After any sequence of public operations, as long as the store holds fewer
  than \<open>2^64\<close> orders, no order ever allocated has the id 0, and the first one
  allocated has the id 1.
\<close>

theorem lastOrderId_initially_zero:
  "MatchingEngine_lastOrderId MatchingEngine_new = 0 \<and>
   (\<exists>e. run MatchingEngine_new (map Cancel is) = Some e \<and> MatchingEngine_lastOrderId e = 0) \<and>
   (\<exists>e. run MatchingEngine_new ops = Some e \<and>
      (length (storage e) < 2 ^ 64 \<longrightarrow>
         (\<forall>p < length (storage e). o_id (storage e ! p) \<noteq> 0) \<and>
         (storage e \<noteq> [] \<longrightarrow> o_id (storage e ! 0) = 1)))"
proof -
  have a: "MatchingEngine_lastOrderId MatchingEngine_new = 0"
    by (simp add: MatchingEngine_lastOrderId_def MatchingEngine_new_def)
  from run_cancels [of MatchingEngine_new "is"]
  have b: "\<exists>e. run MatchingEngine_new (map Cancel is) = Some e \<and> MatchingEngine_lastOrderId e = 0"
    by (auto simp: MatchingEngine_lastOrderId_def MatchingEngine_new_def)
  from reachable_inv [of ops] obtain e where r: "run MatchingEngine_new ops = Some e"
    and ei: "engine_inv e" by blast
  from ei have ids: "\<And>p. p < length (storage e) \<Longrightarrow> o_id (storage e ! p) = of_nat (Suc p)"
    by (simp add: engine_inv_def ids_seq_def)
  have "o_id (storage e ! p) \<noteq> 0" if "length (storage e) < 2 ^ 64" "p < length (storage e)" for p
  proof -
    from that have "Suc p < 2 ^ LENGTH(64)" by simp
    then have "(of_nat (Suc p) :: 64 word) \<noteq> 0" by (intro of_nat_neq_0) simp_all
    with ids [OF that(2)] show ?thesis by simp
  qed
  moreover have "o_id (storage e ! 0) = 1" if "storage e \<noteq> []"
    using ids [of 0] that by simp
  ultimately have "length (storage e) < 2 ^ 64 \<longrightarrow>
         (\<forall>p < length (storage e). o_id (storage e ! p) \<noteq> 0) \<and>
         (storage e \<noteq> [] \<longrightarrow> o_id (storage e ! 0) = 1)" by blast
  with a b r show ?thesis by blast
qed

theorem lastOrderId_initially_zero_witness:
  "run MatchingEngine_new [Submit Buy 10000 100 0] = Some engine_one_bid \<and>
   length (storage engine_one_bid) < 2 ^ 64 \<and> storage engine_one_bid \<noteq> [] \<and>
   o_id (storage engine_one_bid ! 0) = 1 \<and>
   MatchingEngine_lastOrderId engine_one_bid = 1 \<and>
   MatchingEngine_lastOrderId MatchingEngine_new = 0"
  using lastOrderId_initially_zero [of "[]" "[Submit Buy 10000 100 0]"] run_one_bid
  by (simp add: engine_one_bid_def Order_new_def MatchingEngine_lastOrderId_def)

end
